theory Spec2Isabelle
  imports Main
begin

section \<open>JavaScript values, objects and the store\<close>

text \<open>
  Payloads are arbitrary JavaScript data: primitives, and plain objects given by reference
  (\<open>VObj a\<close> is the object at address \<open>a\<close> of the store).
\<close>

datatype val = VUndefined | VNull | VBool bool | VNum int | VStr string | VObj nat

type_synonym addr = nat

text \<open>
  A link of an object: the object it refers to, or \<open>None\<close> when the property holds no
  object (it is \<open>null\<close>, \<open>undefined\<close>, a primitive, or absent). The code of the cache only
  dereferences links and compares them with \<open>this.head\<close> and \<open>this.tail\<close>, and every
  non-object behaves as \<open>null\<close> there: dereferencing it ends in a \<open>TypeError\<close>.
\<close>

type_synonym ref = "addr option"

text \<open>
  An object of the store, seen through the four properties the cache reads and writes: a
  \<open>Node\<close> (\<open>class Node\<close> sets all four, the key being a string), or a plain object of the
  caller that was passed as a payload. A property \<open>key\<close> that is absent reads \<open>undefined\<close>;
  \<open>ownValue\<close> tells whether the object has a \<open>value\<close> property of its own (when it has
  none, reading \<open>value\<close> finds what \<open>Object.prototype\<close> holds).
\<close>

record node =
  key :: val
  "value" :: val
  prev :: ref
  "next" :: ref
  ownValue :: bool

datatype error = TypeError

text \<open>
  What \<open>this.cache[key]\<close> can evaluate to. \<open>this.cache\<close> is the object literal \<open>{}\<close>, whose
  prototype is \<open>Object.prototype\<close>: a key the cache stored is a node; the name
  \<open>__proto__\<close> reads the prototype object itself; the other names of \<open>Object.prototype\<close>
  read its built-in functions; any other inherited property reads the value found on the
  prototype (\<open>undefined\<close> when there is none).
\<close>

datatype jsobject = NodeRef addr | ObjectPrototype | BuiltinFunction string | Payload val

text \<open>
  The state: the five fields of the \<open>LRUCache\<close> instance (\<open>capacity\<close>, \<open>cache\<close>, \<open>size\<close>,
  \<open>head\<close>, \<open>tail\<close>), the store of objects with its allocation counter, and the one
  property the cache's code can add to \<open>Object.prototype\<close> (\<open>value\<close>, written by
  \<open>node.value = value\<close> when \<open>node\<close> is the prototype object).
\<close>

record state =
  capacity :: int
  cache :: "string \<Rightarrow> addr option"
  size' :: int
  head :: addr
  tail :: addr
  heap :: "addr \<Rightarrow> node"
  fresh :: addr
  protoValue :: "val option"

text \<open>An operation returns its result or the exception it threw, and the state it left.\<close>

type_synonym 'a res = "(error + 'a) \<times> state"

subsection \<open>Field reads, field writes and allocation\<close>

definition setNext :: "state \<Rightarrow> addr \<Rightarrow> ref \<Rightarrow> state" where
  "setNext s a r = s\<lparr>heap := (heap s)(a := (heap s a)\<lparr>next := r\<rparr>)\<rparr>"

definition setPrev :: "state \<Rightarrow> addr \<Rightarrow> ref \<Rightarrow> state" where
  "setPrev s a r = s\<lparr>heap := (heap s)(a := (heap s a)\<lparr>prev := r\<rparr>)\<rparr>"

text \<open>Writing \<open>value\<close> on an object makes it a property of its own.\<close>

definition setValue :: "state \<Rightarrow> addr \<Rightarrow> val \<Rightarrow> state" where
  "setValue s a v = s\<lparr>heap := (heap s)(a := (heap s a)\<lparr>value := v, ownValue := True\<rparr>)\<rparr>"

text \<open>Reading \<open>value\<close> of an object: its own property, else the prototype's, else \<open>undefined\<close>.\<close>

definition readValue :: "state \<Rightarrow> addr \<Rightarrow> val" where
  "readValue s a =
     (if ownValue (heap s a) then value (heap s a)
      else (case protoValue s of Some v \<Rightarrow> v | None \<Rightarrow> VUndefined))"

text \<open>\<open>new Node(key, value)\<close>: a fresh object with both links \<open>null\<close>.\<close>

definition new_Node :: "state \<Rightarrow> string \<Rightarrow> val \<Rightarrow> addr \<times> state" where
  "new_Node s k v =
     (fresh s,
      s\<lparr>heap := (heap s)(fresh s :=
            \<lparr>key = VStr k, value = v, prev = None, next = None, ownValue = True\<rparr>),
        fresh := Suc (fresh s)\<rparr>)"

text \<open>
  An object literal of the caller with the properties \<open>prev\<close> and \<open>next\<close> (no \<open>key\<close>, no
  \<open>value\<close>), such as \<open>{prev: p, next: n}\<close>, or \<open>{}\<close> when both are \<open>None\<close>. It is not part of
  the cache's code; it serves to state what the cache does with such a payload.
\<close>

definition new_Object :: "state \<Rightarrow> ref \<Rightarrow> ref \<Rightarrow> addr \<times> state" where
  "new_Object s p n =
     (fresh s,
      s\<lparr>heap := (heap s)(fresh s :=
            \<lparr>key = VUndefined, value = VUndefined, prev = p, next = n, ownValue = False\<rparr>),
        fresh := Suc (fresh s)\<rparr>)"

subsection \<open>Property names\<close>

text \<open>The decimal digits of a natural number.\<close>

function decimal :: "nat \<Rightarrow> string" where
  "decimal n =
     (if n < 10 then [char_of (48 + n)]
      else decimal (n div 10) @ [char_of (48 + n mod 10)])"
  by pat_completeness auto
termination
  by (relation "measure id") auto

declare decimal.simps [simp del]

text \<open>
  The property name a value stands for in \<open>this.cache[lruKey]\<close>: a string is its own name,
  the other primitives are converted to strings, a plain object gives \<open>[object Object]\<close>.
\<close>

definition propertyName :: "val \<Rightarrow> string" where
  "propertyName v =
     (case v of
        VStr k \<Rightarrow> k
      | VUndefined \<Rightarrow> ''undefined''
      | VNull \<Rightarrow> ''null''
      | VBool b \<Rightarrow> (if b then ''true'' else ''false'')
      | VNum n \<Rightarrow> (if n < 0 then CHR ''-'' # decimal (nat (- n)) else decimal (nat n))
      | VObj a \<Rightarrow> ''[object Object]'')"

text \<open>The name under which the index holds an object: the name of its key.\<close>

abbreviation nameOf :: "node \<Rightarrow> string" where
  "nameOf n \<equiv> propertyName (key n)"

subsection \<open>Property lookup on \<open>this.cache\<close>\<close>

text \<open>The function-valued properties of \<open>Object.prototype\<close>.\<close>

definition builtinNames :: "string list" where
  "builtinNames =
     [''constructor'', ''__defineGetter__'', ''__defineSetter__'', ''hasOwnProperty'',
      ''__lookupGetter__'', ''__lookupSetter__'', ''isPrototypeOf'',
      ''propertyIsEnumerable'', ''toString'', ''valueOf'', ''toLocaleString'']"

text \<open>\<open>key in this.cache\<close>: own properties and everything on the prototype chain.\<close>

definition hasProperty :: "state \<Rightarrow> string \<Rightarrow> bool" where
  "hasProperty s k =
     (cache s k \<noteq> None \<or> k = ''__proto__'' \<or> k \<in> set builtinNames \<or>
      (k = ''value'' \<and> protoValue s \<noteq> None))"

text \<open>\<open>this.cache[key]\<close>.\<close>

definition getProperty :: "state \<Rightarrow> string \<Rightarrow> jsobject" where
  "getProperty s k =
     (case cache s k of
        Some a \<Rightarrow> NodeRef a
      | None \<Rightarrow>
          if k = ''__proto__'' then ObjectPrototype
          else if k \<in> set builtinNames then BuiltinFunction k
          else if k = ''value'' then
            (case protoValue s of Some v \<Rightarrow> Payload v | None \<Rightarrow> Payload VUndefined)
          else Payload VUndefined)"

text \<open>
  The object of the store that \<open>node\<close> is, when \<open>node\<close> is one whose \<open>prev\<close> and \<open>next\<close> the
  store holds: a node of the index, or a plain object of the caller that was found on the
  prototype. \<open>Object.prototype\<close> and its functions have no \<open>prev\<close> and no \<open>next\<close>, and a
  primitive has no properties: they give \<open>None\<close>.
\<close>

definition objectOf :: "jsobject \<Rightarrow> addr option" where
  "objectOf node =
     (case node of
        NodeRef a \<Rightarrow> Some a
      | Payload (VObj a) \<Rightarrow> Some a
      | other \<Rightarrow> None)"

text \<open>
  \<open>node.value = value\<close> in strict mode (class bodies are strict): on an object of the store it
  writes the property; on \<open>Object.prototype\<close> it adds the property \<open>value\<close> there; on a
  built-in function it adds a property that no code of the cache reads; on a primitive,
  \<open>null\<close> or \<open>undefined\<close> it throws.
\<close>

definition assignValue :: "state \<Rightarrow> jsobject \<Rightarrow> val \<Rightarrow> unit res" where
  "assignValue s node v =
     (case node of
        NodeRef a \<Rightarrow> (Inr (), setValue s a v)
      | ObjectPrototype \<Rightarrow> (Inr (), s\<lparr>protoValue := Some v\<rparr>)
      | BuiltinFunction f \<Rightarrow> (Inr (), s)
      | Payload (VObj a) \<Rightarrow> (Inr (), setValue s a v)
      | Payload p \<Rightarrow> (Inl TypeError, s))"

section \<open>The methods of \<open>LRUCache\<close>\<close>

text \<open>
  The constructor, run in a fresh realm (nothing allocated, \<open>Object.prototype\<close> pristine):
  \<open>newCache\<close> is the object its body builds. The body has no \<open>throw\<close> and no check of
  \<open>capacity\<close>, so \<open>new LRUCache(capacity)\<close> always returns that object.
\<close>

definition newCache :: "int \<Rightarrow> state" where
  "newCache cap =
     (let s0 = \<lparr>capacity = cap, cache = (\<lambda>k. None), size' = 0, head = 0, tail = 0,
                heap = (\<lambda>a. \<lparr>key = VUndefined, value = VUndefined, prev = None, next = None,
                              ownValue = False\<rparr>),
                fresh = 0, protoValue = None\<rparr>;
          (h, s1) = new_Node s0 ''head'' VNull;
          s2 = s1\<lparr>head := h\<rparr>;
          (t, s3) = new_Node s2 ''tail'' VNull;
          s4 = s3\<lparr>tail := t\<rparr>;
          s5 = setNext s4 (head s4) (Some (tail s4));
          s6 = setPrev s5 (tail s5) (Some (head s5))
      in s6)"

definition LRUCache :: "int \<Rightarrow> error + state" where
  "LRUCache cap = Inr (newCache cap)"

text \<open>
  \<open>removeNode(node)\<close>: reading \<open>node.prev\<close> throws when \<open>node\<close> is \<open>null\<close> or \<open>undefined\<close>;
  \<open>prev.next = next\<close> throws when \<open>prev\<close> is no object, which is the case for
  \<open>Object.prototype\<close>, its functions and every primitive as \<open>node\<close>; \<open>next.prev = prev\<close>
  throws when \<open>next\<close> is no object, after the first write has happened. On an object that
  has both links it rewires them, be the object a node of the list or not.
\<close>

definition removeNode :: "state \<Rightarrow> jsobject \<Rightarrow> unit res" where
  "removeNode s node =
     (case objectOf node of
        None \<Rightarrow> (Inl TypeError, s)
      | Some a \<Rightarrow>
          (let p = prev (heap s a); n = next (heap s a) in
           case p of
             None \<Rightarrow> (Inl TypeError, s)
           | Some pa \<Rightarrow>
               (let s1 = setNext s pa n in
                case n of
                  None \<Rightarrow> (Inl TypeError, s1)
                | Some na \<Rightarrow> (Inr (), setPrev s1 na p))))"

text \<open>\<open>addToFront(node)\<close>, called on objects of the store only.\<close>

definition addToFront :: "state \<Rightarrow> addr \<Rightarrow> unit res" where
  "addToFront s a =
     (let s1 = setNext s a (next (heap s (head s)));
          s2 = setPrev s1 a (Some (head s1))
      in case next (heap s2 (head s2)) of
           None \<Rightarrow> (Inl TypeError, s2)
         | Some f \<Rightarrow>
             (let s3 = setPrev s2 f (Some a) in
              (Inr (), setNext s3 (head s3) (Some a))))"

text \<open>
  \<open>moveToFront(node)\<close>. When \<open>removeNode\<close> returns normally its argument was an object of the
  store, so the last branch is never taken.
\<close>

definition moveToFront :: "state \<Rightarrow> jsobject \<Rightarrow> unit res" where
  "moveToFront s node =
     (case removeNode s node of
        (Inl e, s1) \<Rightarrow> (Inl e, s1)
      | (Inr u, s1) \<Rightarrow>
          (case objectOf node of
             Some a \<Rightarrow> addToFront s1 a
           | None \<Rightarrow> (Inl TypeError, s1)))"

text \<open>\<open>removeLRU()\<close>: the key of the removed object, or \<open>null\<close> for an empty list.\<close>

definition removeLRU :: "state \<Rightarrow> val res" where
  "removeLRU s =
     (case prev (heap s (tail s)) of
        None \<Rightarrow> (Inl TypeError, s)
      | Some lruNode \<Rightarrow>
          if lruNode = head s then (Inr VNull, s)
          else
            (case removeNode s (NodeRef lruNode) of
               (Inl e, s1) \<Rightarrow> (Inl e, s1)
             | (Inr u, s1) \<Rightarrow> (Inr (key (heap s1 lruNode)), s1)))"

text \<open>
  \<open>get(key)\<close>. As in \<open>moveToFront\<close>, the last branch is never taken: \<open>moveToFront\<close> returns
  normally on objects of the store only.
\<close>

definition get :: "state \<Rightarrow> string \<Rightarrow> val res" where
  "get s k =
     (if \<not> hasProperty s k then (Inr VUndefined, s)
      else
        (let node = getProperty s k in
         case moveToFront s node of
           (Inl e, s1) \<Rightarrow> (Inl e, s1)
         | (Inr u, s1) \<Rightarrow>
             (case objectOf node of
                Some a \<Rightarrow> (Inr (readValue s1 a), s1)
              | None \<Rightarrow> (Inl TypeError, s1))))"

text \<open>
  The \<open>if\<close> block of \<open>put\<close> that evicts: \<open>removeLRU\<close>, then \<open>delete this.cache[lruKey]\<close>, then
  \<open>this.size--\<close>.
\<close>

definition evictIfFull :: "state \<Rightarrow> unit res" where
  "evictIfFull s =
     (if size' s = capacity s then
        (case removeLRU s of
           (Inl e, s1) \<Rightarrow> (Inl e, s1)
         | (Inr lruKey, s1) \<Rightarrow>
             (Inr (), s1\<lparr>cache := (cache s1)(propertyName lruKey := None),
                         size' := size' s1 - 1\<rparr>))
      else (Inr (), s))"

definition put :: "state \<Rightarrow> string \<Rightarrow> val \<Rightarrow> unit res" where
  "put s k v =
     (if hasProperty s k then
        (let node = getProperty s k in
         case assignValue s node v of
           (Inl e, s1) \<Rightarrow> (Inl e, s1)
         | (Inr u, s1) \<Rightarrow> moveToFront s1 node)
      else
        (case evictIfFull s of
           (Inl e, s1) \<Rightarrow> (Inl e, s1)
         | (Inr u, s1) \<Rightarrow>
             (let (newNode, s2) = new_Node s1 k v in
              case addToFront s2 newNode of
                (Inl e, s3) \<Rightarrow> (Inl e, s3)
              | (Inr u, s3) \<Rightarrow>
                  (Inr (), s3\<lparr>cache := (cache s3)(k := Some newNode),
                              size' := size' s3 + 1\<rparr>))))"

definition delete :: "state \<Rightarrow> string \<Rightarrow> bool res" where
  "delete s k =
     (if \<not> hasProperty s k then (Inr False, s)
      else
        (let node = getProperty s k in
         case removeNode s node of
           (Inl e, s1) \<Rightarrow> (Inl e, s1)
         | (Inr u, s1) \<Rightarrow>
             (Inr True, s1\<lparr>cache := (cache s1)(k := None), size' := size' s1 - 1\<rparr>)))"

definition clear :: "state \<Rightarrow> unit res" where
  "clear s =
     (let s1 = s\<lparr>cache := (\<lambda>k. None)\<rparr>;
          s2 = s1\<lparr>size' := 0\<rparr>;
          s3 = setNext s2 (head s2) (Some (tail s2));
          s4 = setPrev s3 (tail s3) (Some (head s3))
      in (Inr (), s4))"

text \<open>
  The loop of \<open>getContents\<close>: it follows \<open>next\<close> until it meets \<open>this.tail\<close>, which on a
  cyclic store it never does; not returning is \<open>None\<close>. When \<open>current\<close> is no object the
  loop ends in a \<open>TypeError\<close>.
\<close>

partial_function (option) walk ::
  "state \<Rightarrow> ref \<Rightarrow> (val \<times> val) list \<Rightarrow> (error + (val \<times> val) list) option" where
  "walk s current contents =
     (case current of
        None \<Rightarrow> Some (Inl TypeError)
      | Some a \<Rightarrow>
          if a = tail s then Some (Inr contents)
          else walk s (next (heap s a)) (contents @ [(key (heap s a), readValue s a)]))"

definition getContents :: "state \<Rightarrow> (val \<times> val) list res option" where
  "getContents s =
     (case walk s (next (heap s (head s))) [] of
        None \<Rightarrow> None
      | Some r \<Rightarrow> Some (r, s))"

definition has :: "state \<Rightarrow> string \<Rightarrow> bool res" where
  "has s k = (Inr (hasProperty s k), s)"

section \<open>Sequences of calls\<close>

datatype op = Get string | Put string val | Delete string | Has string | GetContents | Clear

datatype ret = RVal val | RBool bool | RContents "(val \<times> val) list" | RUnit

definition returning :: "('a \<Rightarrow> ret) \<Rightarrow> 'a res \<Rightarrow> ret res" where
  "returning f r = (case r of (Inl e, s) \<Rightarrow> (Inl e, s) | (Inr x, s) \<Rightarrow> (Inr (f x), s))"

fun call :: "state \<Rightarrow> op \<Rightarrow> ret res option" where
  "call s (Get k) = Some (returning RVal (get s k))"
| "call s (Put k v) = Some (returning (\<lambda>u. RUnit) (put s k v))"
| "call s (Delete k) = Some (returning RBool (delete s k))"
| "call s (Has k) = Some (returning RBool (has s k))"
| "call s GetContents = map_option (returning RContents) (getContents s)"
| "call s Clear = Some (returning (\<lambda>u. RUnit) (clear s))"

text \<open>
  A caller that catches exceptions (as the route handlers do) and goes on using the cache:
  the state after a sequence of calls, \<open>None\<close> when one of them never returns.
\<close>

fun run :: "state \<Rightarrow> op list \<Rightarrow> state option" where
  "run s [] = Some s"
| "run s (c # cs) = (case call s c of None \<Rightarrow> None | Some (r, s1) \<Rightarrow> run s1 cs)"

text \<open>The names every object literal inherits from the pristine \<open>Object.prototype\<close>.\<close>

definition inheritedName :: "string \<Rightarrow> bool" where
  "inheritedName k = (k = ''__proto__'' \<or> k \<in> set builtinNames)"

text \<open>A sequence of \<open>put\<close> calls, one for each pair.\<close>

definition puts :: "(string \<times> val) list \<Rightarrow> op list" where
  "puts kvs = map (\<lambda>(k, v). Put k v) kvs"

text \<open>The entry \<open>{key, value}\<close> that \<open>getContents\<close> lists for a stored pair.\<close>

definition entry :: "string \<times> val \<Rightarrow> val \<times> val" where
  "entry kv = (VStr (fst kv), snd kv)"

section \<open>The recency sequence as a list of addresses\<close>

text \<open>
  \<open>chain h xs\<close>: each element of \<open>xs\<close> points to the following one with \<open>next\<close>, and
  is pointed back to with \<open>prev\<close>.
\<close>

fun chain :: "(addr \<Rightarrow> node) \<Rightarrow> addr list \<Rightarrow> bool" where
  "chain h (x # y # zs) = (next (h x) = Some y \<and> prev (h y) = Some x \<and> chain h (y # zs))"
| "chain h [x] = True"
| "chain h [] = True"

text \<open>The \<open>{key, value}\<close> pairs of a list of objects, as \<open>getContents\<close> reads them.\<close>

definition entries :: "state \<Rightarrow> addr list \<Rightarrow> (val \<times> val) list" where
  "entries s as = map (\<lambda>a. (key (heap s a), readValue s a)) as"

text \<open>An object that \<open>new Node\<close> made for a string key: it has a value of its own.\<close>

definition isNode :: "node \<Rightarrow> bool" where
  "isNode n = (key n = VStr (nameOf n) \<and> ownValue n)"

text \<open>
  The invariant of the data model for a state whose live nodes are \<open>as\<close>, most recently
  used first: the sentinels and the live nodes are distinct objects linked in both
  directions from \<open>head\<close> to \<open>tail\<close>; the live nodes are nodes; the index holds exactly their
  keys, each bound to its node; \<open>size\<close> counts them.
\<close>

definition cacheInv :: "state \<Rightarrow> addr list \<Rightarrow> bool" where
  "cacheInv s as =
     (distinct (head s # as @ [tail s]) \<and>
      chain (heap s) (head s # as @ [tail s]) \<and>
      dom (cache s) = set (map (\<lambda>a. nameOf (heap s a)) as) \<and>
      (\<forall>a\<in>set as. cache s (nameOf (heap s a)) = Some a \<and> isNode (heap s a)) \<and>
      size' s = int (length as) \<and>
      (\<forall>a\<in>set (head s # as @ [tail s]). a < fresh s))"

text \<open>\<open>relinked s s1\<close>: \<open>s1\<close> differs from \<open>s\<close> in \<open>prev\<close> and \<open>next\<close> links only.\<close>

definition relinked :: "state \<Rightarrow> state \<Rightarrow> bool" where
  "relinked s s1 =
     (capacity s1 = capacity s \<and> cache s1 = cache s \<and> size' s1 = size' s \<and>
      head s1 = head s \<and> tail s1 = tail s \<and> fresh s1 = fresh s \<and>
      protoValue s1 = protoValue s \<and>
      (\<forall>a. key (heap s1 a) = key (heap s a) \<and> value (heap s1 a) = value (heap s a) \<and>
           ownValue (heap s1 a) = ownValue (heap s a)))"

section \<open>Example states\<close>

text \<open>A cache of capacity 2 after \<open>put(a, 1)\<close>, and after \<open>put(a, 1); put(b, 2)\<close>.\<close>

definition cacheA :: state where
  "cacheA = snd (put (newCache 2) ''a'' (VNum 1))"

definition cacheAB :: state where
  "cacheAB = snd (put cacheA ''b'' (VNum 2))"


definition cacheValue :: state where
  "cacheValue = snd (put (newCache 2) ''value'' (VNum 1))"

definition cachePolluted :: state where
  "cachePolluted = snd (put cacheValue ''__proto__'' (VNum 2))"

definition cacheZeroA :: state where
  "cacheZeroA = snd (put (newCache 0) ''a'' (VNum 1))"

text \<open>
  A cache of capacity 2 after \<open>put(a, 1)\<close>, next to three objects that the caller made:
  \<open>q = {}\<close> at address 3, \<open>r = {}\<close> at address 4 and \<open>p = {prev: q, next: r}\<close> at
  address 5. Then the state after the call \<open>put(__proto__, p)\<close>, whose exception the
  caller caught, and the state after \<open>get(value)\<close> on that.
\<close>

definition callerObjects :: state where
  "callerObjects =
     (let (q, s1) = new_Object cacheA None None;
          (r, s2) = new_Object s1 None None;
          (p, s3) = new_Object s2 (Some q) (Some r)
      in s3)"

definition cacheProto :: state where
  "cacheProto = snd (put callerObjects ''__proto__'' (VObj 5))"

definition cacheLinked :: state where
  "cacheLinked = snd (get cacheProto ''value'')"

text \<open>The state after \<open>delete(value)\<close> on the cache left by the call \<open>put(__proto__, p)\<close>.\<close>

definition cacheUnlinked :: state where
  "cacheUnlinked = snd (delete cacheProto ''value'')"

text \<open>
  The cache of capacity 2 holding \<open>b\<close> and \<open>a\<close> after \<open>get(a)\<close>, and then after
  \<open>put(c, 3)\<close>; a cache of capacity 1 after \<open>put(a, 1)\<close>, then after \<open>get(a)\<close>, then
  after \<open>put(b, 2)\<close>.
\<close>

definition cacheABa :: state where
  "cacheABa = snd (get cacheAB ''a'')"

definition cacheCA :: state where
  "cacheCA = snd (put cacheABa ''c'' (VNum 3))"

definition cacheOneA :: state where
  "cacheOneA = snd (put (newCache 1) ''a'' (VNum 1))"

definition cacheOneAa :: state where
  "cacheOneAa = snd (get cacheOneA ''a'')"

definition cacheOneB :: state where
  "cacheOneB = snd (put cacheOneAa ''b'' (VNum 2))"

section \<open>Field writes\<close>

lemma setNext_fields [simp]:
  "capacity (setNext s a r) = capacity s" "cache (setNext s a r) = cache s"
  "size' (setNext s a r) = size' s" "head (setNext s a r) = head s"
  "tail (setNext s a r) = tail s" "fresh (setNext s a r) = fresh s"
  "protoValue (setNext s a r) = protoValue s"
  by (simp_all add: setNext_def)

lemma setPrev_fields [simp]:
  "capacity (setPrev s a r) = capacity s" "cache (setPrev s a r) = cache s"
  "size' (setPrev s a r) = size' s" "head (setPrev s a r) = head s"
  "tail (setPrev s a r) = tail s" "fresh (setPrev s a r) = fresh s"
  "protoValue (setPrev s a r) = protoValue s"
  by (simp_all add: setPrev_def)

lemma setValue_fields [simp]:
  "capacity (setValue s a v) = capacity s" "cache (setValue s a v) = cache s"
  "size' (setValue s a v) = size' s" "head (setValue s a v) = head s"
  "tail (setValue s a v) = tail s" "fresh (setValue s a v) = fresh s"
  "protoValue (setValue s a v) = protoValue s"
  by (simp_all add: setValue_def)

lemma heap_setNext [simp]:
  "next (heap (setNext s a r) b) = (if b = a then r else next (heap s b))"
  "prev (heap (setNext s a r) b) = prev (heap s b)"
  "key (heap (setNext s a r) b) = key (heap s b)"
  "value (heap (setNext s a r) b) = value (heap s b)"
  "ownValue (heap (setNext s a r) b) = ownValue (heap s b)"
  by (simp_all add: setNext_def)

lemma heap_setPrev [simp]:
  "prev (heap (setPrev s a r) b) = (if b = a then r else prev (heap s b))"
  "next (heap (setPrev s a r) b) = next (heap s b)"
  "key (heap (setPrev s a r) b) = key (heap s b)"
  "value (heap (setPrev s a r) b) = value (heap s b)"
  "ownValue (heap (setPrev s a r) b) = ownValue (heap s b)"
  by (simp_all add: setPrev_def)

lemma heap_setValue [simp]:
  "value (heap (setValue s a v) b) = (if b = a then v else value (heap s b))"
  "next (heap (setValue s a v) b) = next (heap s b)"
  "prev (heap (setValue s a v) b) = prev (heap s b)"
  "key (heap (setValue s a v) b) = key (heap s b)"
  "ownValue (heap (setValue s a v) b) = (b = a \<or> ownValue (heap s b))"
  by (simp_all add: setValue_def)

lemma readValue_set [simp]:
  "readValue (setNext s a r) b = readValue s b"
  "readValue (setPrev s a r) b = readValue s b"
  "readValue (setValue s a v) b = (if b = a then v else readValue s b)"
  by (simp_all add: readValue_def)

lemma isNode_set [simp]:
  "isNode (heap (setNext s a r) b) = isNode (heap s b)"
  "isNode (heap (setPrev s a r) b) = isNode (heap s b)"
  by (simp_all add: isNode_def)


lemma isNodeD:
  assumes "isNode (heap s a)"
  shows "key (heap s a) = VStr (nameOf (heap s a))" and "readValue s a = value (heap s a)"
  using assms by (simp_all add: isNode_def readValue_def)

lemma propertyName_VStr [simp]: "propertyName (VStr k) = k"
  by (simp add: propertyName_def)

lemma objectOf_simps [simp]:
  "objectOf (NodeRef a) = Some a" "objectOf (Payload (VObj a)) = Some a"
  "objectOf ObjectPrototype = None" "objectOf (BuiltinFunction f) = None"
  "objectOf (Payload VUndefined) = None" "objectOf (Payload VNull) = None"
  "objectOf (Payload (VBool b)) = None" "objectOf (Payload (VNum n)) = None"
  "objectOf (Payload (VStr k)) = None"
  by (simp_all add: objectOf_def)

lemma chain_append: "chain h (xs @ y # ys) = (chain h (xs @ [y]) \<and> chain h (y # ys))"
  by (induction h xs rule: chain.induct) auto

lemma chain_cong:
  "\<forall>x\<in>set (butlast xs). next (h' x) = next (h x) \<Longrightarrow>
   \<forall>x\<in>set (tl xs). prev (h' x) = prev (h x) \<Longrightarrow> chain h' xs = chain h xs"
  by (induction h xs rule: chain.induct) auto

lemma walk_stop: "walk s (Some (tail s)) acc = Some (Inr acc)"
  by (subst walk.simps) simp

lemma walk_null: "walk s None acc = Some (Inl TypeError)"
  by (subst walk.simps) simp

lemma walk_step:
  "a \<noteq> tail s \<Longrightarrow>
   walk s (Some a) acc = walk s (next (heap s a)) (acc @ [(key (heap s a), readValue s a)])"
  by (subst walk.simps) simp

lemma walk_chain:
  "chain (heap s) (p # as @ [tail s]) \<Longrightarrow> tail s \<notin> set as \<Longrightarrow>
   walk s (next (heap s p)) acc = Some (Inr (acc @ entries s as))"
proof (induction as arbitrary: p acc)
  case Nil
  then show ?case by (simp add: walk_stop entries_def)
next
  case (Cons a as)
  then show ?case by (simp add: walk_step entries_def)
qed

lemma in_set_tlD: "x \<in> set (tl xs) \<Longrightarrow> x \<in> set xs"
  by (cases xs) auto

lemma chain_appendD:
  "chain h (xs @ y # ys) \<Longrightarrow> chain h (xs @ [y]) \<and> chain h (y # ys)"
  using chain_append [of h xs y ys] by simp

lemma chain_appendI:
  "chain h (xs @ [y]) \<Longrightarrow> chain h (y # ys) \<Longrightarrow> chain h (xs @ y # ys)"
  using chain_append [of h xs y ys] by simp

lemma removeNode_chain:
  assumes "chain (heap s) (pre @ pa # a # na # post)"
    and "distinct (pre @ pa # a # na # post)"
  shows "removeNode s (NodeRef a) = (Inr (), setPrev (setNext s pa (Some na)) na (Some pa))"
    and "chain (heap (setPrev (setNext s pa (Some na)) na (Some pa))) (pre @ pa # na # post)"
proof -
  from chain_appendD [OF assms(1)]
  have c: "chain (heap s) (pre @ [pa])" "chain (heap s) (na # post)"
    and l: "next (heap s pa) = Some a" "prev (heap s a) = Some pa"
       "next (heap s a) = Some na" "prev (heap s na) = Some a"
    by simp_all
  show "removeNode s (NodeRef a) = (Inr (), setPrev (setNext s pa (Some na)) na (Some pa))"
    by (simp add: removeNode_def l)
  let ?h = "heap (setPrev (setNext s pa (Some na)) na (Some pa))"
  have "chain ?h (pre @ [pa]) = chain (heap s) (pre @ [pa])"
  proof (rule chain_cong)
    show "\<forall>x\<in>set (butlast (pre @ [pa])). next (?h x) = next (heap s x)"
      using assms(2) by auto
    show "\<forall>x\<in>set (tl (pre @ [pa])). prev (?h x) = prev (heap s x)"
    proof
      fix x assume "x \<in> set (tl (pre @ [pa]))"
      then have "x \<in> set (pre @ [pa])" by (rule in_set_tlD)
      then show "prev (?h x) = prev (heap s x)" using assms(2) by auto
    qed
  qed
  moreover have "chain ?h (na # post) = chain (heap s) (na # post)"
  proof (rule chain_cong)
    show "\<forall>x\<in>set (butlast (na # post)). next (?h x) = next (heap s x)"
    proof
      fix x assume "x \<in> set (butlast (na # post))"
      then have "x \<in> set (na # post)" by (rule in_set_butlastD)
      then show "next (?h x) = next (heap s x)" using assms(2) by auto
    qed
    show "\<forall>x\<in>set (tl (na # post)). prev (?h x) = prev (heap s x)"
      using assms(2) by auto
  qed
  ultimately have "chain ?h (pre @ [pa])" "chain ?h (pa # na # post)"
    using c assms(2) by simp_all
  then show "chain ?h (pre @ pa # na # post)"
    by (rule chain_appendI)
qed

lemma addToFront_chain:
  assumes "chain (heap s) (head s # f # rest)"
    and "distinct (a # head s # f # rest)"
  shows "addToFront s a =
      (Inr (), setNext (setPrev (setPrev (setNext s a (Some f)) a (Some (head s))) f (Some a))
                 (head s) (Some a))"
    and "chain (heap (setNext (setPrev (setPrev (setNext s a (Some f)) a (Some (head s))) f (Some a))
                 (head s) (Some a))) (head s # a # f # rest)"
proof -
  from assms(1) have l: "next (heap s (head s)) = Some f" and c: "chain (heap s) (f # rest)"
    by simp_all
  show "addToFront s a =
      (Inr (), setNext (setPrev (setPrev (setNext s a (Some f)) a (Some (head s))) f (Some a))
                 (head s) (Some a))"
    using assms(2) by (simp add: addToFront_def l Let_def)
  let ?h = "heap (setNext (setPrev (setPrev (setNext s a (Some f)) a (Some (head s))) f (Some a))
                 (head s) (Some a))"
  have "chain ?h (f # rest) = chain (heap s) (f # rest)"
  proof (rule chain_cong)
    show "\<forall>x\<in>set (butlast (f # rest)). next (?h x) = next (heap s x)"
    proof
      fix x assume "x \<in> set (butlast (f # rest))"
      then have "x \<in> set (f # rest)" by (rule in_set_butlastD)
      then show "next (?h x) = next (heap s x)" using assms(2) by auto
    qed
    show "\<forall>x\<in>set (tl (f # rest)). prev (?h x) = prev (heap s x)"
      using assms(2) by auto
  qed
  then show "chain ?h (head s # a # f # rest)"
    using c assms(2) by simp
qed

lemma relinked_refl: "relinked s s"
  by (simp add: relinked_def)

lemma relinked_trans: "relinked s s1 \<Longrightarrow> relinked s1 s2 \<Longrightarrow> relinked s s2"
  by (simp add: relinked_def)

lemma relinked_setNext: "relinked s (setNext s a r)"
  by (simp add: relinked_def)

lemma relinked_setPrev: "relinked s (setPrev s a r)"
  by (simp add: relinked_def)

lemma readValue_relinked: "relinked s s1 \<Longrightarrow> readValue s1 a = readValue s a"
  by (simp add: relinked_def readValue_def)

lemma isNode_relinked: "relinked s s1 \<Longrightarrow> isNode (heap s1 a) = isNode (heap s a)"
  by (simp add: relinked_def isNode_def)

lemma entries_relinked: "relinked s s1 \<Longrightarrow> entries s1 as = entries s as"
  by (simp add: entries_def readValue_relinked) (simp add: relinked_def)

lemma getContents_inv:
  assumes "cacheInv s as"
  shows "getContents s = Some (Inr (entries s as), s)"
proof -
  from assms have "chain (heap s) (head s # as @ [tail s])" and "tail s \<notin> set as"
    by (simp_all add: cacheInv_def)
  then have "walk s (next (heap s (head s))) [] = Some (Inr (entries s as))"
    using walk_chain [of s "head s" as "[]"] by simp
  then show ?thesis by (simp add: getContents_def)
qed

lemma cacheInv_relinked:
  assumes "cacheInv s as" and "relinked s s1"
    and "chain (heap s1) (head s # bs @ [tail s])"
    and "set bs = set as" and "distinct bs" and "length bs = length as"
  shows "cacheInv s1 bs"
  using assms unfolding cacheInv_def relinked_def isNode_def by auto

text \<open>Splitting the path around a member.\<close>

lemma path_split:
  assumes "a \<in> set as"
  shows "\<exists>pre pa na post. h # as @ [t] = pre @ pa # a # na # post \<and>
           h # remove1 a as @ [t] = pre @ pa # na # post"
proof -
  from assms obtain xs ys where as: "as = xs @ a # ys" and nin: "a \<notin> set xs"
    by (auto dest: split_list_first)
  have r: "remove1 a as = xs @ ys" using nin by (simp add: as remove1_append)
  obtain pre pa where p: "h # xs = pre @ [pa]"
    by (metis append_butlast_last_id list.distinct(1))
  obtain na post where n: "ys @ [t] = na # post"
    by (cases ys) auto
  have "h # as @ [t] = (h # xs) @ a # (ys @ [t])" by (simp add: as)
  also have "\<dots> = pre @ pa # a # na # post" by (simp add: p n)
  finally have 1: "h # as @ [t] = pre @ pa # a # na # post" .
  have "h # remove1 a as @ [t] = (h # xs) @ (ys @ [t])" by (simp add: r)
  also have "\<dots> = pre @ pa # na # post" by (simp add: p n)
  finally have 2: "h # remove1 a as @ [t] = pre @ pa # na # post" .
  from 1 2 show ?thesis by blast
qed

lemma removeNode_inv:
  assumes "cacheInv s as" and "a \<in> set as"
  shows "\<exists>s1. removeNode s (NodeRef a) = (Inr (), s1) \<and> relinked s s1 \<and>
           chain (heap s1) (head s # remove1 a as @ [tail s])"
proof -
  from path_split [OF assms(2), of "head s" "tail s"]
  obtain pre pa na post where 1: "head s # as @ [tail s] = pre @ pa # a # na # post"
    and 2: "head s # remove1 a as @ [tail s] = pre @ pa # na # post" by blast
  from assms(1) have c: "chain (heap s) (pre @ pa # a # na # post)"
    and d: "distinct (pre @ pa # a # na # post)"
    unfolding cacheInv_def 1 [symmetric] by simp_all
  let ?s1 = "setPrev (setNext s pa (Some na)) na (Some pa)"
  have "removeNode s (NodeRef a) = (Inr (), ?s1)" by (rule removeNode_chain(1) [OF c d])
  moreover have "chain (heap ?s1) (head s # remove1 a as @ [tail s])"
    unfolding 2 by (rule removeNode_chain(2) [OF c d])
  moreover have "relinked s ?s1"
    by (rule relinked_trans [OF relinked_setNext relinked_setPrev])
  ultimately show ?thesis by blast
qed

lemma addToFront_inv:
  assumes "chain (heap s) (head s # bs @ [tail s])"
    and "distinct (a # head s # bs @ [tail s])"
  shows "\<exists>s1. addToFront s a = (Inr (), s1) \<and> relinked s s1 \<and>
           chain (heap s1) (head s # a # bs @ [tail s]) \<and> next (heap s1 (head s)) = Some a"
proof -
  obtain f rest where fr: "bs @ [tail s] = f # rest" by (cases bs) auto
  let ?s1 = "setNext (setPrev (setPrev (setNext s a (Some f)) a (Some (head s))) f (Some a))
                 (head s) (Some a)"
  from assms have c: "chain (heap s) (head s # f # rest)" and d: "distinct (a # head s # f # rest)"
    by (simp_all add: fr)
  have "addToFront s a = (Inr (), ?s1)" by (rule addToFront_chain(1) [OF c d])
  moreover have "chain (heap ?s1) (head s # a # bs @ [tail s])"
    unfolding fr by (rule addToFront_chain(2) [OF c d])
  moreover have "relinked s ?s1"
    by (simp add: relinked_def)
  moreover have "next (heap ?s1 (head s)) = Some a" by simp
  ultimately show ?thesis by blast
qed

lemma moveToFront_inv:
  assumes "cacheInv s as" and "a \<in> set as"
  shows "\<exists>s1. moveToFront s (NodeRef a) = (Inr (), s1) \<and> relinked s s1 \<and>
           cacheInv s1 (a # remove1 a as) \<and> next (heap s1 (head s1)) = Some a"
proof -
  from removeNode_inv [OF assms] obtain s1 where
    r: "removeNode s (NodeRef a) = (Inr (), s1)" and l1: "relinked s s1"
    and c1: "chain (heap s1) (head s # remove1 a as @ [tail s])" by blast
  from l1 have hd: "head s1 = head s" "tail s1 = tail s" by (simp_all add: relinked_def)
  from assms have d: "distinct (a # head s # remove1 a as @ [tail s])"
    by (auto simp: cacheInv_def)
  from addToFront_inv [of s1 "remove1 a as" a] c1 d hd obtain s2 where
    a2: "addToFront s1 a = (Inr (), s2)" and l2: "relinked s1 s2"
    and c2: "chain (heap s2) (head s # a # remove1 a as @ [tail s])"
    and n2: "next (heap s2 (head s)) = Some a" by auto
  have l: "relinked s s2" by (rule relinked_trans [OF l1 l2])
  have "cacheInv s2 (a # remove1 a as)"
  proof (rule cacheInv_relinked [OF assms(1) l])
    show "chain (heap s2) (head s # (a # remove1 a as) @ [tail s])" using c2 by simp
    show "set (a # remove1 a as) = set as" using assms by (auto simp: cacheInv_def)
    show "distinct (a # remove1 a as)" using assms by (auto simp: cacheInv_def)
    show "length (a # remove1 a as) = length as" using assms(2)
      by (simp add: length_remove1) (cases as; auto)
  qed
  moreover have "moveToFront s (NodeRef a) = (Inr (), s2)"
    by (simp add: moveToFront_def r a2)
  moreover have "next (heap s2 (head s2)) = Some a" using n2 l by (simp add: relinked_def)
  ultimately show ?thesis using l by blast
qed

lemma cacheInv_bound: "cacheInv s as \<Longrightarrow> a \<in> set as \<Longrightarrow> cache s (nameOf (heap s a)) = Some a"
  by (simp add: cacheInv_def)

lemma cacheInv_node:
  assumes "cacheInv s as" and "a \<in> set as"
  shows "isNode (heap s a)" and "key (heap s a) = VStr (nameOf (heap s a))"
    and "readValue s a = value (heap s a)"
proof -
  from assms show "isNode (heap s a)" by (simp add: cacheInv_def)
  then show "key (heap s a) = VStr (nameOf (heap s a))" and "readValue s a = value (heap s a)"
    by (rule isNodeD)+
qed

lemma cacheInv_index:
  assumes "cacheInv s as" and "cache s k = Some a"
  shows "a \<in> set as" and "nameOf (heap s a) = k"
proof -
  from assms(1) have "dom (cache s) = set (map (\<lambda>a. nameOf (heap s a)) as)"
    by (simp add: cacheInv_def)
  with assms(2) have "k \<in> set (map (\<lambda>a. nameOf (heap s a)) as)" by blast
  then obtain b where b: "b \<in> set as" "nameOf (heap s b) = k" by auto
  with cacheInv_bound [OF assms(1) b(1)] have "cache s k = Some b" by simp
  with assms(2) have "a = b" by simp
  with b show "a \<in> set as" and "nameOf (heap s a) = k" by simp_all
qed

lemma cacheInv_keys_inj:
  assumes "cacheInv s as" and "a \<in> set as" and "b \<in> set as"
    and "nameOf (heap s a) = nameOf (heap s b)"
  shows "a = b"
proof -
  have "Some a = cache s (nameOf (heap s a))" by (rule cacheInv_bound [OF assms(1,2), symmetric])
  also have "\<dots> = cache s (nameOf (heap s b))" by (rule arg_cong [OF assms(4)])
  also have "\<dots> = Some b" by (rule cacheInv_bound [OF assms(1,3)])
  finally show ?thesis by (simp only: option.inject)
qed

lemma cacheInv_absent:
  assumes "cacheInv s as" and "cache s k = None" and "a \<in> set as"
  shows "nameOf (heap s a) \<noteq> k"
proof
  assume "nameOf (heap s a) = k"
  then have "cache s k = Some a" using cacheInv_bound [OF assms(1,3)] by (rule subst)
  with assms(2) show False by (simp only: option.distinct)
qed

lemma cacheInv_distinct: "cacheInv s as \<Longrightarrow> distinct as"
  by (simp add: cacheInv_def)

lemma cacheInv_size: "cacheInv s as \<Longrightarrow> size' s = int (length as)"
  by (simp add: cacheInv_def)

lemma cacheInv_keys_distinct:
  assumes "cacheInv s as"
  shows "distinct (map (\<lambda>a. nameOf (heap s a)) as)"
proof -
  have "inj_on (\<lambda>a. nameOf (heap s a)) (set as)"
    by (rule inj_onI) (rule cacheInv_keys_inj [OF assms])
  with cacheInv_distinct [OF assms] show ?thesis by (simp add: distinct_map)
qed

lemma getProperty_own: "cache s k = Some a \<Longrightarrow> getProperty s k = NodeRef a"
  by (simp add: getProperty_def)

lemma hasProperty_own: "cache s k = Some a \<Longrightarrow> hasProperty s k"
  by (simp add: hasProperty_def)

lemma removeNode_notNode: "objectOf node = None \<Longrightarrow> removeNode s node = (Inl TypeError, s)"
  by (simp add: removeNode_def)

lemma moveToFront_notNode: "objectOf node = None \<Longrightarrow> moveToFront s node = (Inl TypeError, s)"
  by (simp add: moveToFront_def removeNode_notNode)

lemma objectOf_inherited:
  "cache s k = None \<Longrightarrow> k = ''__proto__'' \<or> k \<in> set builtinNames \<Longrightarrow>
   objectOf (getProperty s k) = None"
  by (auto simp: getProperty_def)

lemma get_hit:
  assumes "cacheInv s as" and "cache s k = Some a"
  shows "\<exists>s1. get s k = (Inr (value (heap s a)), s1) \<and> relinked s s1 \<and>
           cacheInv s1 (a # remove1 a as) \<and> next (heap s1 (head s1)) = Some a"
proof -
  from cacheInv_index [OF assms] have a: "a \<in> set as" by simp
  from moveToFront_inv [OF assms(1) a] obtain s1 where
    m: "moveToFront s (NodeRef a) = (Inr (), s1)" and l: "relinked s s1"
    and i: "cacheInv s1 (a # remove1 a as)" and n: "next (heap s1 (head s1)) = Some a" by blast
  from readValue_relinked [OF l] cacheInv_node(3) [OF assms(1) a]
  have "readValue s1 a = value (heap s a)" by simp
  then have "get s k = (Inr (value (heap s a)), s1)"
    using assms(2) m by (simp add: get_def hasProperty_own getProperty_own)
  with l i n show ?thesis by blast
qed


lemma get_inherited:
  "hasProperty s k \<Longrightarrow> objectOf (getProperty s k) = None \<Longrightarrow> get s k = (Inl TypeError, s)"
  by (simp add: get_def moveToFront_notNode)

lemma delete_absent: "\<not> hasProperty s k \<Longrightarrow> delete s k = (Inr False, s)"
  by (simp add: delete_def)

lemma delete_inherited:
  "hasProperty s k \<Longrightarrow> objectOf (getProperty s k) = None \<Longrightarrow> delete s k = (Inl TypeError, s)"
  by (simp add: delete_def removeNode_notNode)




lemma proto_not_builtin: "''__proto__'' \<notin> set builtinNames" "''value'' \<notin> set builtinNames"
  by (simp_all add: builtinNames_def)

lemma put_inherited:
  assumes "hasProperty s k" and "objectOf (getProperty s k) = None"
  shows "put s k v =
           (Inl TypeError, if k = ''__proto__'' then s\<lparr>protoValue := Some v\<rparr> else s)"
proof (cases "getProperty s k")
  case (NodeRef a)
  with assms(2) show ?thesis by simp
next
  case ObjectPrototype
  then have "k = ''__proto__''"
    by (simp add: getProperty_def split: option.splits if_splits)
  with assms ObjectPrototype show ?thesis
    by (simp add: put_def assignValue_def moveToFront_notNode)
next
  case (BuiltinFunction f)
  then have "k \<noteq> ''__proto__''"
    by (simp add: getProperty_def split: option.splits if_splits)
  with assms BuiltinFunction show ?thesis
    by (simp add: put_def assignValue_def moveToFront_notNode)
next
  case (Payload p)
  then have "k \<noteq> ''__proto__''"
    by (simp add: getProperty_def split: option.splits if_splits)
  with assms Payload show ?thesis
    by (cases p) (simp_all add: put_def assignValue_def)
qed

lemma chain_last: "chain h (xs @ [y, z]) \<Longrightarrow> prev (h z) = Some y \<and> next (h y) = Some z"
  using chain_appendD [of h xs y "[z]"] by simp

lemma cacheInv_path_distinct: "cacheInv s as \<Longrightarrow> distinct (head s # as @ [tail s])"
  by (simp add: cacheInv_def)

lemma cacheInv_chain: "cacheInv s as \<Longrightarrow> chain (heap s) (head s # as @ [tail s])"
  by (simp add: cacheInv_def)

lemma cacheInv_dom: "cacheInv s as \<Longrightarrow> dom (cache s) = (\<lambda>a. nameOf (heap s a)) ` set as"
  by (simp add: cacheInv_def)

lemma cacheInv_fresh:
  assumes "cacheInv s as" and "a \<in> set (head s # as @ [tail s])"
  shows "a < fresh s"
proof -
  from assms(1) have "\<forall>a\<in>set (head s # as @ [tail s]). a < fresh s"
    unfolding cacheInv_def by (elim conjE)
  then show ?thesis using assms(2) by (rule bspec)
qed

lemma cacheInvI:
  assumes "distinct (head s # as @ [tail s])"
    and "chain (heap s) (head s # as @ [tail s])"
    and "dom (cache s) = (\<lambda>a. nameOf (heap s a)) ` set as"
    and "\<And>a. a \<in> set as \<Longrightarrow> cache s (nameOf (heap s a)) = Some a"
    and "size' s = int (length as)"
    and "\<And>a. a \<in> set (head s # as @ [tail s]) \<Longrightarrow> a < fresh s"
    and "\<And>a. a \<in> set as \<Longrightarrow> isNode (heap s a)"
  shows "cacheInv s as"
  unfolding cacheInv_def using assms by (intro conjI ballI) simp_all

lemma unlink_inv:
  assumes "cacheInv s as" and a: "a \<in> set as" and l: "relinked s s1"
    and c: "chain (heap s1) (head s # remove1 a as @ [tail s])"
  shows "cacheInv (s1\<lparr>cache := (cache s1)(nameOf (heap s a) := None), size' := size' s1 - 1\<rparr>)
           (remove1 a as)"
proof -
  let ?k = "nameOf (heap s a)"
  let ?s2 = "s1\<lparr>cache := (cache s1)(?k := None), size' := size' s1 - 1\<rparr>"
  from l have eq: "cache s1 = cache s" "size' s1 = size' s" "head s1 = head s" "tail s1 = tail s"
    "fresh s1 = fresh s" and keq: "\<And>b. nameOf (heap s1 b) = nameOf (heap s b)"
    by (simp_all add: relinked_def)
  have das: "distinct as" by (rule cacheInv_distinct [OF assms(1)])
  then have sr: "set (remove1 a as) = set as - {a}" by simp
  have keys: "\<And>b. b \<in> set as \<Longrightarrow> b \<noteq> a \<Longrightarrow> nameOf (heap s b) \<noteq> ?k"
    using cacheInv_keys_inj [OF assms(1) _ a] by blast
  note dom = cacheInv_dom [OF assms(1)]
  show ?thesis
  proof (rule cacheInvI)
    show "distinct (head ?s2 # remove1 a as @ [tail ?s2])"
      using cacheInv_path_distinct [OF assms(1)] by (simp add: eq sr)
    show "chain (heap ?s2) (head ?s2 # remove1 a as @ [tail ?s2])"
      using c by (simp add: eq)
    have "dom (cache ?s2) = dom (cache s) - {?k}" by (simp add: eq)
    also have "\<dots> = (\<lambda>a. nameOf (heap s a)) ` (set as - {a})"
    proof -
      have "inj_on (\<lambda>a. nameOf (heap s a)) (set as)"
        by (rule inj_onI) (rule cacheInv_keys_inj [OF assms(1)])
      from inj_on_image_set_diff [OF this, of "set as" "{a}"] a
      show ?thesis unfolding dom by simp
    qed
    finally show "dom (cache ?s2) = (\<lambda>a. nameOf (heap ?s2 a)) ` set (remove1 a as)"
      by (simp add: sr keq)
    show "cache ?s2 (nameOf (heap ?s2 b)) = Some b" if "b \<in> set (remove1 a as)" for b
    proof -
      from that have b: "b \<in> set as" "b \<noteq> a" by (simp_all add: sr)
      from keys [OF b] cacheInv_bound [OF assms(1) b(1)]
      show ?thesis by (simp add: eq keq)
    qed
    show "size' ?s2 = int (length (remove1 a as))"
    proof -
      from a obtain m where m: "length as = Suc m" by (cases as) auto
      with a have "length (remove1 a as) = m" by (simp add: length_remove1)
      moreover have "size' s = int (Suc m)" using cacheInv_size [OF assms(1)] m by simp
      ultimately show ?thesis by (simp add: eq)
    qed
    show "b < fresh ?s2" if "b \<in> set (head ?s2 # remove1 a as @ [tail ?s2])" for b
    proof -
      from that have "b \<in> set (head s # as @ [tail s])" by (auto simp: eq sr)
      from cacheInv_fresh [OF assms(1) this] show ?thesis by (simp add: eq)
    qed
    show "isNode (heap ?s2 b)" if "b \<in> set (remove1 a as)" for b
    proof -
      from that have "b \<in> set as" by (simp add: sr)
      from cacheInv_node(1) [OF assms(1) this] isNode_relinked [OF l, of b]
      show ?thesis by simp
    qed
  qed
qed

lemma delete_present:
  assumes "cacheInv s as" and "cache s k = Some a"
  shows "\<exists>s1. delete s k =
             (Inr True, s1\<lparr>cache := (cache s)(k := None), size' := size' s - 1\<rparr>) \<and>
           relinked s s1 \<and>
           cacheInv (s1\<lparr>cache := (cache s)(k := None), size' := size' s - 1\<rparr>) (remove1 a as)"
proof -
  from cacheInv_index [OF assms] have a: "a \<in> set as" and ka: "nameOf (heap s a) = k" by simp_all
  from removeNode_inv [OF assms(1) a] obtain s1 where
    r: "removeNode s (NodeRef a) = (Inr (), s1)" and l: "relinked s s1"
    and c: "chain (heap s1) (head s # remove1 a as @ [tail s])" by blast
  from l have eq: "cache s1 = cache s" "size' s1 = size' s" by (simp_all add: relinked_def)
  have "delete s k = (Inr True, s1\<lparr>cache := (cache s)(k := None), size' := size' s - 1\<rparr>)"
    using assms(2) r by (simp add: delete_def hasProperty_own getProperty_own eq)
  moreover from unlink_inv [OF assms(1) a l c]
  have "cacheInv (s1\<lparr>cache := (cache s)(k := None), size' := size' s - 1\<rparr>) (remove1 a as)"
    by (simp add: eq ka)
  ultimately show ?thesis using l by blast
qed

lemma newCache_eq:
  "newCache cap = setPrev (setNext
     \<lparr>capacity = cap, cache = (\<lambda>k. None), size' = 0, head = 0, tail = Suc 0,
      heap = (\<lambda>a. \<lparr>key = VUndefined, value = VUndefined, prev = None, next = None,
                      ownValue = False\<rparr>)
               (0 := \<lparr>key = VStr ''head'', value = VNull, prev = None, next = None,
                      ownValue = True\<rparr>,
                Suc 0 := \<lparr>key = VStr ''tail'', value = VNull, prev = None, next = None,
                      ownValue = True\<rparr>),
      fresh = Suc (Suc 0), protoValue = None\<rparr> 0 (Some (Suc 0))) (Suc 0) (Some 0)"
  by (simp add: newCache_def new_Node_def Let_def)

lemma newCache_fields [simp]:
  "capacity (newCache cap) = cap" "cache (newCache cap) = (\<lambda>k. None)"
  "size' (newCache cap) = 0" "head (newCache cap) = 0" "tail (newCache cap) = Suc 0"
  "fresh (newCache cap) = Suc (Suc 0)" "protoValue (newCache cap) = None"
  "next (heap (newCache cap) 0) = Some (Suc 0)" "prev (heap (newCache cap) (Suc 0)) = Some 0"
  unfolding newCache_eq by simp_all

lemma newCache_inv: "cacheInv (newCache cap) []"
  by (rule cacheInvI) (simp_all add: less_Suc_eq)

lemma hasProperty_inherited:
  "k = ''__proto__'' \<or> k \<in> set builtinNames \<Longrightarrow> hasProperty s k"
  by (auto simp: hasProperty_def)

lemma new_Node_fst [simp]: "fst (new_Node s k v) = fresh s"
  by (simp add: new_Node_def)

lemma new_Node_fields [simp]:
  "capacity (snd (new_Node s k v)) = capacity s" "cache (snd (new_Node s k v)) = cache s"
  "size' (snd (new_Node s k v)) = size' s" "head (snd (new_Node s k v)) = head s"
  "tail (snd (new_Node s k v)) = tail s" "fresh (snd (new_Node s k v)) = Suc (fresh s)"
  "protoValue (snd (new_Node s k v)) = protoValue s"
  by (simp_all add: new_Node_def)

lemma new_Node_heap:
  "heap (snd (new_Node s k v)) a =
     (if a = fresh s
      then \<lparr>key = VStr k, value = v, prev = None, next = None, ownValue = True\<rparr>
      else heap s a)"
  by (simp add: new_Node_def)

lemma readValue_new_Node:
  "readValue (snd (new_Node s k v)) a = (if a = fresh s then v else readValue s a)"
  by (simp add: readValue_def new_Node_def)

lemma readValue_index [simp]:
  "readValue (s\<lparr>cache := c, size' := n\<rparr>) a = readValue s a"
  by (simp add: readValue_def)

lemma chain_new_Node:
  assumes "\<forall>a\<in>set xs. a < fresh s"
  shows "chain (heap (snd (new_Node s k v))) xs = chain (heap s) xs"
proof (rule chain_cong)
  show "\<forall>x\<in>set (butlast xs). next (heap (snd (new_Node s k v)) x) = next (heap s x)"
  proof
    fix x assume "x \<in> set (butlast xs)"
    then have "x \<in> set xs" by (rule in_set_butlastD)
    with assms have "x \<noteq> fresh s" by auto
    then show "next (heap (snd (new_Node s k v)) x) = next (heap s x)"
      by (simp add: new_Node_heap)
  qed
  show "\<forall>x\<in>set (tl xs). prev (heap (snd (new_Node s k v)) x) = prev (heap s x)"
  proof
    fix x assume "x \<in> set (tl xs)"
    then have "x \<in> set xs" by (rule in_set_tlD)
    with assms have "x \<noteq> fresh s" by auto
    then show "prev (heap (snd (new_Node s k v)) x) = prev (heap s x)"
      by (simp add: new_Node_heap)
  qed
qed

lemma insert_inv:
  assumes inv: "cacheInv s bs" and k: "cache s k = None"
  shows "\<exists>s3. addToFront (snd (new_Node s k v)) (fresh s) = (Inr (), s3) \<and>
           relinked (snd (new_Node s k v)) s3 \<and>
           next (heap s3 (head s)) = Some (fresh s) \<and>
           cacheInv (s3\<lparr>cache := (cache s3)(k := Some (fresh s)), size' := size' s3 + 1\<rparr>)
             (fresh s # bs)"
proof -
  let ?s2 = "snd (new_Node s k v)"
  let ?n = "fresh s"
  have fr: "\<And>a. a \<in> set (head s # bs @ [tail s]) \<Longrightarrow> a < fresh s"
    by (rule cacheInv_fresh [OF inv])
  then have nin: "?n \<notin> set (head s # bs @ [tail s])" by blast
  have c2: "chain (heap ?s2) (head ?s2 # bs @ [tail ?s2])"
    using chain_new_Node [of "head s # bs @ [tail s]" s k v] fr cacheInv_chain [OF inv]
    by simp
  have d2: "distinct (?n # head ?s2 # bs @ [tail ?s2])"
    using cacheInv_path_distinct [OF inv] nin by simp
  from addToFront_inv [OF c2 d2] obtain s3 where
    a3: "addToFront ?s2 ?n = (Inr (), s3)" and l3: "relinked ?s2 s3"
    and c3: "chain (heap s3) (head s # ?n # bs @ [tail s])"
    and n3: "next (heap s3 (head s)) = Some ?n" by auto
  from l3 have eq: "cache s3 = cache s" "size' s3 = size' s" "head s3 = head s"
    "tail s3 = tail s" "fresh s3 = Suc (fresh s)"
    and keq: "\<And>b. nameOf (heap s3 b) = nameOf (heap ?s2 b)"
    by (simp_all add: relinked_def)
  have kn: "nameOf (heap s3 ?n) = k" by (simp add: keq new_Node_heap)
  have ko: "\<And>b. b \<in> set bs \<Longrightarrow> nameOf (heap s3 b) = nameOf (heap s b)"
    using nin by (auto simp: keq new_Node_heap)
  let ?s4 = "s3\<lparr>cache := (cache s3)(k := Some ?n), size' := size' s3 + 1\<rparr>"
  have "cacheInv ?s4 (?n # bs)"
  proof (rule cacheInvI)
    show "distinct (head ?s4 # (?n # bs) @ [tail ?s4])"
      using cacheInv_path_distinct [OF inv] nin by (simp add: eq)
    show "chain (heap ?s4) (head ?s4 # (?n # bs) @ [tail ?s4])"
      using c3 by (simp add: eq)
    have "dom (cache ?s4) = insert k (dom (cache s))" by (simp add: eq)
    also have "\<dots> = insert k ((\<lambda>a. nameOf (heap s a)) ` set bs)"
      by (simp add: cacheInv_dom [OF inv])
    also have "\<dots> = (\<lambda>a. nameOf (heap ?s4 a)) ` set (?n # bs)"
      using ko by (simp add: kn)
    finally show "dom (cache ?s4) = (\<lambda>a. nameOf (heap ?s4 a)) ` set (?n # bs)" .
    show "cache ?s4 (nameOf (heap ?s4 b)) = Some b" if "b \<in> set (?n # bs)" for b
    proof (cases "b = ?n")
      case True
      then show ?thesis by (simp add: kn)
    next
      case False
      with that have b: "b \<in> set bs" by simp
      from cacheInv_absent [OF inv k b] have "nameOf (heap s b) \<noteq> k" .
      then show ?thesis using cacheInv_bound [OF inv b] by (simp add: ko [OF b] eq)
    qed
    show "size' ?s4 = int (length (?n # bs))"
      using cacheInv_size [OF inv] by (simp add: eq)
    show "b < fresh ?s4" if "b \<in> set (head ?s4 # (?n # bs) @ [tail ?s4])" for b
    proof (cases "b = ?n")
      case True
      then show ?thesis by (simp add: eq)
    next
      case False
      with that have "b \<in> set (head s # bs @ [tail s])" by (auto simp: eq)
      from fr [OF this] show ?thesis by (simp add: eq)
    qed
    show "isNode (heap ?s4 b)" if "b \<in> set (?n # bs)" for b
    proof (cases "b = ?n")
      case True
      then show ?thesis using isNode_relinked [OF l3, of b]
        by (simp add: new_Node_heap isNode_def)
    next
      case False
      with that have b: "b \<in> set bs" by simp
      with nin have "b \<noteq> ?n" by auto
      with cacheInv_node(1) [OF inv b] isNode_relinked [OF l3, of b]
      show ?thesis by (simp add: new_Node_heap)
    qed
  qed
  with a3 l3 n3 show ?thesis by blast
qed

lemma remove1_last: "distinct xs \<Longrightarrow> xs \<noteq> [] \<Longrightarrow> remove1 (last xs) xs = butlast xs"
proof (induction xs)
  case Nil
  then show ?case by simp
next
  case (Cons x xs)
  show ?case
  proof (cases "xs = []")
    case True
    then show ?thesis by simp
  next
    case False
    with Cons.prems have "last xs \<noteq> x" by auto
    with Cons False show ?thesis by simp
  qed
qed

lemma removeLRU_inv:
  assumes inv: "cacheInv s as" and ne: "as \<noteq> []"
  shows "\<exists>s1. removeLRU s = (Inr (key (heap s (last as))), s1) \<and> relinked s s1 \<and>
           chain (heap s1) (head s # butlast as @ [tail s])"
proof -
  have la: "last as \<in> set as" using ne by simp
  have "head s # as @ [tail s] = (head s # butlast as) @ [last as, tail s]"
    using ne by simp
  with cacheInv_chain [OF inv] have "chain (heap s) ((head s # butlast as) @ [last as, tail s])"
    by simp
  from chain_last [OF this] have p: "prev (heap s (tail s)) = Some (last as)" by simp
  have nh: "last as \<noteq> head s" using cacheInv_path_distinct [OF inv] la by auto
  from removeNode_inv [OF inv la] obtain s1 where
    r: "removeNode s (NodeRef (last as)) = (Inr (), s1)" and l: "relinked s s1"
    and c: "chain (heap s1) (head s # remove1 (last as) as @ [tail s])" by blast
  from l have "key (heap s1 (last as)) = key (heap s (last as))" by (simp add: relinked_def)
  then have "removeLRU s = (Inr (key (heap s (last as))), s1)"
    by (simp add: removeLRU_def p nh r)
  moreover have "chain (heap s1) (head s # butlast as @ [tail s])"
    using c by (simp add: remove1_last [OF cacheInv_distinct [OF inv] ne])
  ultimately show ?thesis using l by blast
qed

lemma evictIfFull_room: "size' s \<noteq> capacity s \<Longrightarrow> evictIfFull s = (Inr (), s)"
  by (simp add: evictIfFull_def)

lemma evictIfFull_full:
  assumes inv: "cacheInv s as" and ne: "as \<noteq> []" and full: "size' s = capacity s"
  shows "\<exists>s1. relinked s s1 \<and>
           evictIfFull s =
             (Inr (), s1\<lparr>cache := (cache s)(nameOf (heap s (last as)) := None),
                         size' := size' s - 1\<rparr>) \<and>
           cacheInv (s1\<lparr>cache := (cache s)(nameOf (heap s (last as)) := None),
                       size' := size' s - 1\<rparr>) (butlast as)"
proof -
  have la: "last as \<in> set as" using ne by simp
  from removeLRU_inv [OF inv ne] obtain s1 where
    r: "removeLRU s = (Inr (key (heap s (last as))), s1)" and l: "relinked s s1"
    and c: "chain (heap s1) (head s # butlast as @ [tail s])" by blast
  from l have eq: "cache s1 = cache s" "size' s1 = size' s" by (simp_all add: relinked_def)
  have c': "chain (heap s1) (head s # remove1 (last as) as @ [tail s])"
    using c by (simp add: remove1_last [OF cacheInv_distinct [OF inv] ne])
  have "evictIfFull s =
          (Inr (), s1\<lparr>cache := (cache s)(nameOf (heap s (last as)) := None),
                      size' := size' s - 1\<rparr>)"
    by (simp add: evictIfFull_def full r eq)
  moreover from unlink_inv [OF inv la l c']
  have "cacheInv (s1\<lparr>cache := (cache s)(nameOf (heap s (last as)) := None),
                    size' := size' s - 1\<rparr>) (butlast as)"
    by (simp add: eq remove1_last [OF cacheInv_distinct [OF inv] ne])
  ultimately show ?thesis using l by blast
qed

lemma clear_inv:
  assumes "cacheInv s as"
  shows "cacheInv (snd (clear s)) []"
proof (rule cacheInvI)
  let ?c = "snd (clear s)"
  have f: "head ?c = head s" "tail ?c = tail s" "fresh ?c = fresh s" "cache ?c = (\<lambda>k. None)"
    "size' ?c = 0"
    by (simp_all add: clear_def Let_def)
  from cacheInv_path_distinct [OF assms] have ht: "head s \<noteq> tail s" by simp
  show "distinct (head ?c # [] @ [tail ?c])" using ht by (simp add: f)
  show "chain (heap ?c) (head ?c # [] @ [tail ?c])"
    using ht by (simp add: clear_def Let_def)
  show "dom (cache ?c) = (\<lambda>a. nameOf (heap ?c a)) ` set []" by (simp add: f)
  show "cache ?c (nameOf (heap ?c a)) = Some a" if "a \<in> set []" for a using that by simp
  show "size' ?c = int (length ([]::addr list))" by (simp add: f)
  show "a < fresh ?c" if "a \<in> set (head ?c # [] @ [tail ?c])" for a
    using that cacheInv_fresh [OF assms, of a] by (auto simp: f)
  show "isNode (heap ?c a)" if "a \<in> set []" for a using that by simp
qed

lemma entries_Cons:
  "entries s (a # as) = (key (heap s a), readValue s a) # entries s as"
  by (simp add: entries_def)

lemma entries_cong:
  "(\<And>a. a \<in> set as \<Longrightarrow> key (heap s1 a) = key (heap s a) \<and> readValue s1 a = readValue s a)
   \<Longrightarrow> entries s1 as = entries s as"
  by (simp add: entries_def)

lemma entries_butlast: "entries s (butlast as) = butlast (entries s as)"
  by (simp add: entries_def map_butlast)

lemma not_hasProperty_cache: "\<not> hasProperty s k \<Longrightarrow> cache s k = None"
  by (simp add: hasProperty_def)

lemma put_insert:
  assumes ev: "evictIfFull s = (Inr (), s')" and nk: "\<not> hasProperty s k"
    and inv: "cacheInv s' bs" and k: "cache s' k = None"
  shows "\<exists>s1. put s k v = (Inr (), s1) \<and> cacheInv s1 (fresh s' # bs) \<and>
           entries s1 (fresh s' # bs) = (VStr k, v) # entries s' bs \<and>
           cache s1 = (cache s')(k := Some (fresh s')) \<and> size' s1 = size' s' + 1 \<and>
           capacity s1 = capacity s' \<and> protoValue s1 = protoValue s' \<and>
           head s1 = head s' \<and> tail s1 = tail s' \<and> fresh s1 = Suc (fresh s') \<and>
           next (heap s1 (head s1)) = Some (fresh s')"
proof -
  let ?s2 = "snd (new_Node s' k v)"
  from insert_inv [OF inv k, of v] obtain s3 where
    a3: "addToFront ?s2 (fresh s') = (Inr (), s3)" and l3: "relinked ?s2 s3"
    and n3: "next (heap s3 (head s')) = Some (fresh s')"
    and i4: "cacheInv (s3\<lparr>cache := (cache s3)(k := Some (fresh s')), size' := size' s3 + 1\<rparr>)
               (fresh s' # bs)" by blast
  let ?s4 = "s3\<lparr>cache := (cache s3)(k := Some (fresh s')), size' := size' s3 + 1\<rparr>"
  from l3 have eq: "cache s3 = cache s'" "size' s3 = size' s'" "head s3 = head s'"
    "tail s3 = tail s'" "capacity s3 = capacity s'" "protoValue s3 = protoValue s'"
    "fresh s3 = Suc (fresh s')"
    and keq: "\<And>b. key (heap s3 b) = key (heap ?s2 b)"
    by (simp_all add: relinked_def)
  note req = readValue_relinked [OF l3]
  have p: "put s k v = (Inr (), ?s4)"
    using nk ev a3 by (simp add: put_def split_beta)
  have fr: "\<And>a. a \<in> set bs \<Longrightarrow> a \<noteq> fresh s'"
    using cacheInv_fresh [OF inv] by fastforce
  have "entries ?s4 bs = entries s' bs"
    by (rule entries_cong) (simp add: keq req new_Node_heap readValue_new_Node fr)
  then have e: "entries ?s4 (fresh s' # bs) = (VStr k, v) # entries s' bs"
    by (simp add: entries_Cons keq req new_Node_heap readValue_new_Node)
  show ?thesis
    using p i4 e n3 by (intro exI [of _ ?s4]) (simp add: eq)
qed

lemma put_new_room:
  assumes inv: "cacheInv s as" and nk: "\<not> hasProperty s k" and room: "size' s \<noteq> capacity s"
  shows "\<exists>s1. put s k v = (Inr (), s1) \<and> cacheInv s1 (fresh s # as) \<and>
           entries s1 (fresh s # as) = (VStr k, v) # entries s as \<and>
           cache s1 = (cache s)(k := Some (fresh s)) \<and> size' s1 = size' s + 1 \<and>
           capacity s1 = capacity s \<and> protoValue s1 = protoValue s \<and>
           head s1 = head s \<and> tail s1 = tail s \<and> fresh s1 = Suc (fresh s) \<and>
           next (heap s1 (head s1)) = Some (fresh s)"
  by (rule put_insert [OF evictIfFull_room [OF room] nk inv not_hasProperty_cache [OF nk]])

lemma put_new_full:
  assumes inv: "cacheInv s as" and nk: "\<not> hasProperty s k" and full: "size' s = capacity s"
    and ne: "as \<noteq> []"
  shows "\<exists>s1. put s k v = (Inr (), s1) \<and> cacheInv s1 (fresh s # butlast as) \<and>
           entries s1 (fresh s # butlast as) = (VStr k, v) # butlast (entries s as) \<and>
           cache s1 = (cache s)(nameOf (heap s (last as)) := None, k := Some (fresh s)) \<and>
           size' s1 = size' s \<and> capacity s1 = capacity s \<and> protoValue s1 = protoValue s \<and>
           head s1 = head s \<and> tail s1 = tail s \<and> fresh s1 = Suc (fresh s) \<and>
           next (heap s1 (head s1)) = Some (fresh s)"
proof -
  from evictIfFull_full [OF inv ne full] obtain s0 where l: "relinked s s0"
    and ev: "evictIfFull s =
      (Inr (), s0\<lparr>cache := (cache s)(nameOf (heap s (last as)) := None), size' := size' s - 1\<rparr>)"
    and i: "cacheInv (s0\<lparr>cache := (cache s)(nameOf (heap s (last as)) := None),
                       size' := size' s - 1\<rparr>) (butlast as)" by blast
  let ?s' = "s0\<lparr>cache := (cache s)(nameOf (heap s (last as)) := None), size' := size' s - 1\<rparr>"
  have k: "cache ?s' k = None" using not_hasProperty_cache [OF nk] by simp
  from l have eq: "fresh s0 = fresh s" "capacity s0 = capacity s" "protoValue s0 = protoValue s"
    "head s0 = head s" "tail s0 = tail s"
    by (simp_all add: relinked_def)
  have e: "entries ?s' (butlast as) = butlast (entries s as)"
    using entries_relinked [OF l, of "butlast as"] by (simp add: entries_def map_butlast)
  from put_insert [OF ev nk i k, of v] show ?thesis
    by (simp add: eq e)
qed

lemma plain_key_new: "\<not> hasProperty (newCache cap) ''a''" "\<not> hasProperty (newCache cap) ''b''"
  "\<not> hasProperty (newCache cap) ''c''"
  by (simp_all add: hasProperty_def builtinNames_def)

lemma cacheA_facts:
  "put (newCache 2) ''a'' (VNum 1) = (Inr (), cacheA)"
  "cacheInv cacheA [2]" "entries cacheA [2] = [(VStr ''a'', VNum 1)]"
  "cache cacheA = (\<lambda>k. None)(''a'' := Some 2)" "size' cacheA = 1" "capacity cacheA = 2"
  "protoValue cacheA = None" "fresh cacheA = 3"
proof -
  have room: "size' (newCache 2) \<noteq> capacity (newCache 2)" by simp
  from put_new_room [OF newCache_inv plain_key_new(1) room, where v = "VNum 1"]
  obtain s1 where p: "put (newCache 2) ''a'' (VNum 1) = (Inr (), s1)"
    and f: "cacheInv s1 [2]" "entries s1 [2] = [(VStr ''a'', VNum 1)]"
      "cache s1 = (\<lambda>k. None)(''a'' := Some 2)" "size' s1 = 1" "capacity s1 = 2"
      "protoValue s1 = None" "fresh s1 = 3"
    by (auto simp: entries_def numeral_2_eq_2 numeral_3_eq_3)
  from p have s1: "s1 = cacheA" by (simp add: cacheA_def)
  from p f show "put (newCache 2) ''a'' (VNum 1) = (Inr (), cacheA)"
    "cacheInv cacheA [2]" "entries cacheA [2] = [(VStr ''a'', VNum 1)]"
    "cache cacheA = (\<lambda>k. None)(''a'' := Some 2)" "size' cacheA = 1" "capacity cacheA = 2"
    "protoValue cacheA = None" "fresh cacheA = 3" unfolding s1 by simp_all
qed

lemma cacheAB_facts:
  "put cacheA ''b'' (VNum 2) = (Inr (), cacheAB)"
  "cacheInv cacheAB [3, 2]" "entries cacheAB [3, 2] = [(VStr ''b'', VNum 2), (VStr ''a'', VNum 1)]"
  "cache cacheAB = (\<lambda>k. None)(''a'' := Some 2, ''b'' := Some 3)" "size' cacheAB = 2"
  "capacity cacheAB = 2" "protoValue cacheAB = None" "fresh cacheAB = 4"
proof -
  have room: "size' cacheA \<noteq> capacity cacheA" by (simp add: cacheA_facts)
  have nk: "\<not> hasProperty cacheA ''b''"
    by (simp add: hasProperty_def builtinNames_def cacheA_facts)
  from put_new_room [OF cacheA_facts(2) nk room, where v = "VNum 2"]
  obtain s1 where p: "put cacheA ''b'' (VNum 2) = (Inr (), s1)"
    and f: "cacheInv s1 [3, 2]" "entries s1 [3, 2] = [(VStr ''b'', VNum 2), (VStr ''a'', VNum 1)]"
      "cache s1 = (\<lambda>k. None)(''a'' := Some 2, ''b'' := Some 3)" "size' s1 = 2"
      "capacity s1 = 2" "protoValue s1 = None" "fresh s1 = 4"
    by (auto simp: cacheA_facts)
  from p have s1: "s1 = cacheAB" by (simp add: cacheAB_def)
  from p f show "put cacheA ''b'' (VNum 2) = (Inr (), cacheAB)"
    "cacheInv cacheAB [3, 2]" "entries cacheAB [3, 2] = [(VStr ''b'', VNum 2), (VStr ''a'', VNum 1)]"
    "cache cacheAB = (\<lambda>k. None)(''a'' := Some 2, ''b'' := Some 3)" "size' cacheAB = 2"
    "capacity cacheAB = 2" "protoValue cacheAB = None" "fresh cacheAB = 4"
    unfolding s1 by simp_all
qed

lemma cacheA_links:
  "head cacheA = 0" "tail cacheA = Suc 0"
  "next (heap cacheA 0) = Some 2" "next (heap cacheA 2) = Some (Suc 0)"
  "prev (heap cacheA 2) = Some 0" "prev (heap cacheA (Suc 0)) = Some 2"
  "key (heap cacheA 2) = VStr ''a''" "value (heap cacheA 2) = VNum 1"
  "ownValue (heap cacheA 2)"
proof -
  have room: "size' (newCache 2) \<noteq> capacity (newCache 2)" by simp
  from put_new_room [OF newCache_inv plain_key_new(1) room, where v = "VNum 1"]
  obtain s1 where p: "put (newCache 2) ''a'' (VNum 1) = (Inr (), s1)"
    and h: "head s1 = 0" "tail s1 = Suc 0"
    by (auto simp: numeral_2_eq_2)
  from p have s1: "s1 = cacheA" by (simp add: cacheA_def)
  from h show ht: "head cacheA = 0" "tail cacheA = Suc 0" unfolding s1 by simp_all
  from cacheInv_chain [OF cacheA_facts(2)]
  show "next (heap cacheA 0) = Some 2" "next (heap cacheA 2) = Some (Suc 0)"
    "prev (heap cacheA 2) = Some 0" "prev (heap cacheA (Suc 0)) = Some 2"
    by (simp_all add: ht)
  have n: "isNode (heap cacheA 2)" by (rule cacheInv_node(1) [OF cacheA_facts(2)]) simp
  from cacheA_facts(3) isNodeD(2) [OF n]
  show "key (heap cacheA 2) = VStr ''a''" "value (heap cacheA 2) = VNum 1"
    by (simp_all add: entries_def)
  from n show "ownValue (heap cacheA 2)" by (simp add: isNode_def)
qed

lemma callerObjects_eq:
  "callerObjects =
     cacheA\<lparr>heap := (heap cacheA)
        (3 := \<lparr>key = VUndefined, value = VUndefined, prev = None, next = None, ownValue = False\<rparr>,
         4 := \<lparr>key = VUndefined, value = VUndefined, prev = None, next = None, ownValue = False\<rparr>,
         5 := \<lparr>key = VUndefined, value = VUndefined, prev = Some 3, next = Some 4,
                ownValue = False\<rparr>),
       fresh := 6\<rparr>"
  by (simp add: callerObjects_def new_Object_def cacheA_facts)

lemma cacheProto_eq:
  "put callerObjects ''__proto__'' (VObj 5) = (Inl TypeError, cacheProto)"
  "cacheProto = callerObjects\<lparr>protoValue := Some (VObj 5)\<rparr>"
proof -
  have h: "hasProperty callerObjects ''__proto__''" by (simp add: hasProperty_def)
  have c: "cache callerObjects ''__proto__'' = None"
    by (simp add: callerObjects_eq cacheA_facts)
  have o: "objectOf (getProperty callerObjects ''__proto__'') = None"
    by (simp add: getProperty_def c)
  from put_inherited [OF h o, of "VObj 5"]
  show "cacheProto = callerObjects\<lparr>protoValue := Some (VObj 5)\<rparr>"
    by (simp add: cacheProto_def)
  with put_inherited [OF h o, of "VObj 5"]
  show "put callerObjects ''__proto__'' (VObj 5) = (Inl TypeError, cacheProto)" by simp
qed

lemma cacheProto_fields:
  "head cacheProto = 0" "tail cacheProto = Suc 0" "size' cacheProto = 1"
  "capacity cacheProto = 2" "cache cacheProto = (\<lambda>k. None)(''a'' := Some 2)"
  "protoValue cacheProto = Some (VObj 5)"
  "next (heap cacheProto 0) = Some 2" "next (heap cacheProto 2) = Some (Suc 0)"
  "prev (heap cacheProto 2) = Some 0" "prev (heap cacheProto (Suc 0)) = Some 2"
  "key (heap cacheProto 2) = VStr ''a''" "readValue cacheProto 2 = VNum 1"
  "prev (heap cacheProto 5) = Some 3" "next (heap cacheProto 5) = Some 4"
  "key (heap cacheProto 5) = VUndefined" "readValue cacheProto 5 = VObj 5"
  by (simp_all add: cacheProto_eq(2) callerObjects_eq cacheA_facts cacheA_links readValue_def)

lemma cacheLinked_eq:
  "get cacheProto ''value'' = (Inr (VObj 5), cacheLinked)"
  "cacheLinked =
     setNext (setPrev (setPrev (setNext (setPrev (setNext cacheProto 3 (Some 4)) 4 (Some 3))
       5 (Some 2)) 5 (Some 0)) 2 (Some 5)) 0 (Some 5)"
proof -
  have g: "get cacheProto ''value'' =
     (Inr (VObj 5),
      setNext (setPrev (setPrev (setNext (setPrev (setNext cacheProto 3 (Some 4)) 4 (Some 3))
       5 (Some 2)) 5 (Some 0)) 2 (Some 5)) 0 (Some 5))"
    by (simp add: get_def hasProperty_def getProperty_def moveToFront_def removeNode_def
        addToFront_def Let_def cacheProto_fields proto_not_builtin)
  then show "cacheLinked =
     setNext (setPrev (setPrev (setNext (setPrev (setNext cacheProto 3 (Some 4)) 4 (Some 3))
       5 (Some 2)) 5 (Some 0)) 2 (Some 5)) 0 (Some 5)"
    by (simp add: cacheLinked_def)
  with g show "get cacheProto ''value'' = (Inr (VObj 5), cacheLinked)" by simp
qed

lemma cacheLinked_contents:
  "getContents cacheLinked =
     Some (Inr [(VUndefined, VObj 5), (VStr ''a'', VNum 1)], cacheLinked)"
proof -
  have f: "head cacheLinked = 0" "tail cacheLinked = Suc 0"
    "next (heap cacheLinked 0) = Some 5" "next (heap cacheLinked 5) = Some 2"
    "next (heap cacheLinked 2) = Some (Suc 0)"
    "key (heap cacheLinked 5) = VUndefined" "readValue cacheLinked 5 = VObj 5"
    "key (heap cacheLinked 2) = VStr ''a''" "readValue cacheLinked 2 = VNum 1"
    by (simp_all add: cacheLinked_eq(2) cacheProto_fields)
  have "walk cacheLinked (Some 5) [] =
          Some (Inr [(VUndefined, VObj 5), (VStr ''a'', VNum 1)])"
    using walk_stop [of cacheLinked "[(VUndefined, VObj 5), (VStr ''a'', VNum 1)]"]
    by (simp add: walk_step f)
  then show ?thesis by (simp add: getContents_def f)
qed

lemma cacheUnlinked_eq:
  "delete cacheProto ''value'' = (Inr True, cacheUnlinked)"
  "cacheUnlinked =
     (setPrev (setNext cacheProto 3 (Some 4)) 4 (Some 3))
       \<lparr>cache := (cache cacheProto)(''value'' := None), size' := size' cacheProto - 1\<rparr>"
proof -
  have d: "delete cacheProto ''value'' =
     (Inr True, (setPrev (setNext cacheProto 3 (Some 4)) 4 (Some 3))
       \<lparr>cache := (cache cacheProto)(''value'' := None), size' := size' cacheProto - 1\<rparr>)"
    by (simp add: delete_def hasProperty_def getProperty_def removeNode_def Let_def
        cacheProto_fields proto_not_builtin)
  then show "cacheUnlinked =
     (setPrev (setNext cacheProto 3 (Some 4)) 4 (Some 3))
       \<lparr>cache := (cache cacheProto)(''value'' := None), size' := size' cacheProto - 1\<rparr>"
    by (simp add: cacheUnlinked_def)
  with d show "delete cacheProto ''value'' = (Inr True, cacheUnlinked)" by simp
qed

lemma run_append:
  "run s (cs @ ds) = (case run s cs of None \<Rightarrow> None | Some s1 \<Rightarrow> run s1 ds)"
  by (induction cs arbitrary: s) (auto split: option.splits)

lemma run_put: "put s k v = (Inr (), s1) \<Longrightarrow> run s [Put k v] = Some s1"
  by (simp add: returning_def)

lemma run_get: "get s k = (Inr x, s1) \<Longrightarrow> run s [Get k] = Some s1"
  by (simp add: returning_def)

lemma cacheInv_dom_entries:
  "cacheInv s as \<Longrightarrow> dom (cache s) = set (map (propertyName \<circ> fst) (entries s as))"
  by (simp add: cacheInv_dom entries_def comp_def)

lemma names_entry: "map (propertyName \<circ> fst) (map entry kvs) = map fst kvs"
  by (simp add: entry_def comp_def)

lemma length_entries: "length (entries s as) = length as"
  by (simp add: entries_def)

lemma dom_filled:
  assumes "cacheInv s as" and "entries s as = rev (map entry kvs)"
  shows "dom (cache s) = set (map fst kvs)"
proof -
  have "dom (cache s) = set (map (propertyName \<circ> fst) (rev (map entry kvs)))"
    using cacheInv_dom_entries [OF assms(1)] by (simp only: assms(2))
  also have "\<dots> = set (map (propertyName \<circ> fst) (map entry kvs))"
    by (simp only: rev_map [symmetric] set_rev)
  also have "\<dots> = set (map fst kvs)" by (simp only: names_entry)
  finally show ?thesis .
qed

lemma plain_not_hasProperty:
  "cache s k = None \<Longrightarrow> \<not> inheritedName k \<Longrightarrow> protoValue s = None \<Longrightarrow> \<not> hasProperty s k"
  by (simp add: hasProperty_def inheritedName_def)

lemma puts_fill:
  assumes "distinct (map fst kvs)" and "\<forall>k\<in>set (map fst kvs). \<not> inheritedName k"
    and "int (length kvs) \<le> N"
  shows "\<exists>s as. run (newCache N) (puts kvs) = Some s \<and> cacheInv s as \<and>
           entries s as = rev (map entry kvs) \<and> capacity s = N \<and> protoValue s = None"
  using assms
proof (induction kvs rule: rev_induct)
  case Nil
  have "run (newCache N) (puts []) = Some (newCache N)" by (simp add: puts_def)
  moreover have "entries (newCache N) [] = rev (map entry [])" by (simp add: entries_def)
  ultimately show ?case using newCache_inv [of N] by (intro exI [of _ "newCache N"]) auto
next
  case (snoc kv kvs)
  obtain k v where kv: "kv = (k, v)" by (cases kv)
  from snoc.prems have d: "distinct (map fst kvs)" and k: "k \<notin> set (map fst kvs)"
    and ni: "\<forall>k\<in>set (map fst kvs). \<not> inheritedName k" and nk: "\<not> inheritedName k"
    and len: "int (length kvs) < N"
    by (simp_all add: kv)
  from len have "int (length kvs) \<le> N" by simp
  from snoc.IH [OF d ni this] obtain s as where r: "run (newCache N) (puts kvs) = Some s"
    and inv: "cacheInv s as" and e: "entries s as = rev (map entry kvs)"
    and c: "capacity s = N" and p: "protoValue s = None" by blast
  have "length as = length kvs" using length_entries [of s as] by (simp add: e)
  with cacheInv_size [OF inv] len c have room: "size' s \<noteq> capacity s" by simp
  have "dom (cache s) = set (map fst kvs)" by (rule dom_filled [OF inv e])
  with k have "cache s k = None" by blast
  then have nh: "\<not> hasProperty s k" using nk p by (rule plain_not_hasProperty)
  from put_new_room [OF inv nh room, of v] obtain s1 where
    pt: "put s k v = (Inr (), s1)" and inv1: "cacheInv s1 (fresh s # as)"
    and e1: "entries s1 (fresh s # as) = (VStr k, v) # entries s as"
    and c1: "capacity s1 = capacity s" and p1: "protoValue s1 = protoValue s" by blast
  have "run (newCache N) (puts (kvs @ [kv])) = Some s1"
    using run_put [OF pt] by (simp add: puts_def run_append r [unfolded puts_def] kv)
  moreover have "entries s1 (fresh s # as) = rev (map entry (kvs @ [kv]))"
    by (simp add: e1 e kv entry_def)
  ultimately show ?case using inv1 c1 p1 c p by (intro exI [of _ s1] exI [of _ "fresh s # as"]) simp
qed

lemma fill_put:
  assumes d: "distinct (k # k1 # map fst rest)"
    and ni: "\<forall>x\<in>set (k # k1 # map fst rest). \<not> inheritedName x"
  shows "\<exists>s. run (newCache (int (length rest) + 1)) (puts ((k1, v1) # rest) @ [Put k v]) = Some s \<and>
           getContents s = Some (Inr (entry (k, v) # rev (map entry rest)), s) \<and>
           dom (cache s) = set (k # map fst rest)"
proof -
  let ?N = "int (length rest) + 1"
  let ?kvs = "(k1, v1) # rest"
  from d have d0: "distinct (map fst ?kvs)" by simp
  from ni have ni0: "\<forall>x\<in>set (map fst ?kvs). \<not> inheritedName x" by simp
  have len: "int (length ?kvs) \<le> ?N" by simp
  from puts_fill [OF d0 ni0 len] obtain s as where r: "run (newCache ?N) (puts ?kvs) = Some s"
    and inv: "cacheInv s as" and e: "entries s as = rev (map entry ?kvs)"
    and c: "capacity s = ?N" and p: "protoValue s = None" by blast
  have la: "length as = length ?kvs" using length_entries [of s as] by (simp add: e)
  then have ne: "as \<noteq> []" by auto
  from cacheInv_size [OF inv] la c have full: "size' s = capacity s" by simp
  have "dom (cache s) = set (map fst ?kvs)" by (rule dom_filled [OF inv e])
  with d have "cache s k = None" by (auto simp: dom_def)
  moreover from ni have "\<not> inheritedName k" by simp
  ultimately have nh: "\<not> hasProperty s k" using p by (rule plain_not_hasProperty)
  from put_new_full [OF inv nh full ne, of v] obtain s1 where
    pt: "put s k v = (Inr (), s1)" and inv1: "cacheInv s1 (fresh s # butlast as)"
    and e1: "entries s1 (fresh s # butlast as) = (VStr k, v) # butlast (entries s as)" by blast
  have e2: "entries s1 (fresh s # butlast as) = entry (k, v) # rev (map entry rest)"
    by (simp add: e1 e entry_def)
  have "run (newCache ?N) (puts ?kvs @ [Put k v]) = Some s1"
    using run_put [OF pt] by (simp only: run_append r option.case)
  moreover have "getContents s1 = Some (Inr (entry (k, v) # rev (map entry rest)), s1)"
    using getContents_inv [OF inv1] by (simp only: e2)
  moreover have "dom (cache s1) = set (k # map fst rest)"
  proof -
    have "entries s1 (fresh s # butlast as) = rev (map entry (rest @ [(k, v)]))"
      by (simp add: e2)
    from dom_filled [OF inv1 this] show ?thesis by auto
  qed
  ultimately show ?thesis by blast
qed

lemma fill_get_put:
  assumes d: "distinct (k # k1 # k2 # map fst rest)"
    and ni: "\<forall>x\<in>set (k # k1 # k2 # map fst rest). \<not> inheritedName x"
  shows "\<exists>s. run (newCache (int (length rest) + 2))
                (puts ((k1, v1) # (k2, v2) # rest) @ [Get k1, Put k v]) = Some s \<and>
           getContents s = Some (Inr (entry (k, v) # entry (k1, v1) # rev (map entry rest)), s) \<and>
           dom (cache s) = set (k # k1 # map fst rest)"
proof -
  let ?N = "int (length rest) + 2"
  let ?kvs = "(k1, v1) # (k2, v2) # rest"
  from d have d0: "distinct (map fst ?kvs)" by simp
  from ni have ni0: "\<forall>x\<in>set (map fst ?kvs). \<not> inheritedName x" by simp
  have len: "int (length ?kvs) \<le> ?N" by simp
  from puts_fill [OF d0 ni0 len] obtain s as where r: "run (newCache ?N) (puts ?kvs) = Some s"
    and inv: "cacheInv s as" and e: "entries s as = rev (map entry ?kvs)"
    and c: "capacity s = ?N" and p: "protoValue s = None" by blast
  have la: "length as = length ?kvs" using length_entries [of s as] by (simp add: e)
  then have ne: "as \<noteq> []" by auto
  then have lin: "last as \<in> set as" by simp
  from cacheInv_size [OF inv] la c have full: "size' s = capacity s" by simp
  have "last (entries s as) = (key (heap s (last as)), readValue s (last as))"
    using ne by (simp add: entries_def last_map)
  then have kl: "key (heap s (last as)) = VStr k1" by (simp add: e entry_def)
  with cacheInv_bound [OF inv lin] have c1: "cache s k1 = Some (last as)" by simp
  from get_hit [OF inv c1] obtain s1 where g: "get s k1 = (Inr (value (heap s (last as))), s1)"
    and l: "relinked s s1" and inv1: "cacheInv s1 (last as # remove1 (last as) as)" by blast
  have rm: "remove1 (last as) as = butlast as"
    by (rule remove1_last [OF cacheInv_distinct [OF inv] ne])
  from inv1 have inv1': "cacheInv s1 (last as # butlast as)" by (simp only: rm)
  have "entries s (last as # butlast as) = last (entries s as) # butlast (entries s as)"
    using ne by (simp add: entries_def last_map map_butlast)
  then have e1: "entries s1 (last as # butlast as) =
                   entry (k1, v1) # rev (map entry ((k2, v2) # rest))"
    using entries_relinked [OF l, of "last as # butlast as"] by (simp add: e butlast_append)
  from l have eq: "cache s1 = cache s" "protoValue s1 = protoValue s" "size' s1 = size' s"
    "capacity s1 = capacity s" by (simp_all add: relinked_def)
  have "dom (cache s) = set (map fst ?kvs)" by (rule dom_filled [OF inv e])
  with d have "cache s1 k = None" by (auto simp: dom_def eq)
  moreover from ni have "\<not> inheritedName k" by simp
  ultimately have nh: "\<not> hasProperty s1 k" using p by (intro plain_not_hasProperty) (simp_all add: eq)
  have full1: "size' s1 = capacity s1" using full by (simp add: eq)
  have ne1: "last as # butlast as \<noteq> []" by simp
  from put_new_full [OF inv1' nh full1 ne1, of v] obtain s2 where
    pt: "put s1 k v = (Inr (), s2)"
    and inv2: "cacheInv s2 (fresh s1 # butlast (last as # butlast as))"
    and e2: "entries s2 (fresh s1 # butlast (last as # butlast as)) =
               (VStr k, v) # butlast (entries s1 (last as # butlast as))" by blast
  have e3: "entries s2 (fresh s1 # butlast (last as # butlast as)) =
              entry (k, v) # entry (k1, v1) # rev (map entry rest)"
    unfolding e2 e1 by (simp add: entry_def)
  have "run (newCache ?N) (puts ?kvs @ [Get k1]) = Some s1"
    using run_get [OF g] by (simp only: run_append r option.case)
  then have "run (newCache ?N) ((puts ?kvs @ [Get k1]) @ [Put k v]) = Some s2"
    using run_put [OF pt] by (simp only: run_append option.case)
  then have "run (newCache ?N) (puts ?kvs @ [Get k1, Put k v]) = Some s2" by simp
  moreover have "getContents s2 =
      Some (Inr (entry (k, v) # entry (k1, v1) # rev (map entry rest)), s2)"
    using getContents_inv [OF inv2] by (simp only: e3)
  moreover have "dom (cache s2) = set (k # k1 # map fst rest)"
  proof -
    have "entries s2 (fresh s1 # butlast (last as # butlast as)) =
            rev (map entry (rest @ [(k1, v1), (k, v)]))"
      by (simp only: e3) simp
    from dom_filled [OF inv2 this] show ?thesis by auto
  qed
  ultimately show ?thesis by blast
qed

lemma cacheCA_facts:
  "get cacheAB ''a'' = (Inr (VNum 1), cacheABa)"
  "put cacheABa ''c'' (VNum 3) = (Inr (), cacheCA)"
  "getContents cacheCA = Some (Inr [(VStr ''c'', VNum 3), (VStr ''a'', VNum 1)], cacheCA)"
proof -
  have a: "cache cacheAB ''a'' = Some 2" by (simp add: cacheAB_facts)
  have v: "value (heap cacheAB 2) = VNum 1"
    using cacheAB_facts(3) cacheInv_node(3) [OF cacheAB_facts(2), of 2]
    by (simp add: entries_def)
  from get_hit [OF cacheAB_facts(2) a] obtain s1 where
    g: "get cacheAB ''a'' = (Inr (VNum 1), s1)" and l: "relinked cacheAB s1"
    and inv1: "cacheInv s1 [2, 3]" by (auto simp: v)
  from g have s1: "s1 = cacheABa" by (simp add: cacheABa_def)
  from l have eq: "cache s1 = cache cacheAB" "protoValue s1 = protoValue cacheAB"
    "size' s1 = size' cacheAB" "capacity s1 = capacity cacheAB" by (simp_all add: relinked_def)
  have e1: "entries s1 [2, 3] = [(VStr ''a'', VNum 1), (VStr ''b'', VNum 2)]"
    using entries_relinked [OF l, of "[2, 3]"] cacheAB_facts(3) by (simp add: entries_def)
  have nh: "\<not> hasProperty s1 ''c''"
    by (simp add: hasProperty_def builtinNames_def eq cacheAB_facts)
  have full: "size' s1 = capacity s1" by (simp add: eq cacheAB_facts)
  have ne: "[2, 3] \<noteq> ([]::addr list)" by simp
  from put_new_full [OF inv1 nh full ne, of "VNum 3"] obtain s2 where
    p: "put s1 ''c'' (VNum 3) = (Inr (), s2)" and inv2: "cacheInv s2 [fresh s1, 2]"
    and e2: "entries s2 [fresh s1, 2] = [(VStr ''c'', VNum 3), (VStr ''a'', VNum 1)]"
    by (auto simp: e1)
  from p have s2: "s2 = cacheCA" by (simp add: cacheCA_def s1)
  from g show "get cacheAB ''a'' = (Inr (VNum 1), cacheABa)" by (simp only: s1)
  from p show "put cacheABa ''c'' (VNum 3) = (Inr (), cacheCA)" by (simp only: s1 s2)
  from getContents_inv [OF inv2]
  have "getContents s2 = Some (Inr [(VStr ''c'', VNum 3), (VStr ''a'', VNum 1)], s2)"
    by (simp only: e2)
  then show "getContents cacheCA =
      Some (Inr [(VStr ''c'', VNum 3), (VStr ''a'', VNum 1)], cacheCA)"
    by (simp only: s2)
qed

lemma cacheOne_facts:
  "put (newCache 1) ''a'' (VNum 1) = (Inr (), cacheOneA)"
  "get cacheOneA ''a'' = (Inr (VNum 1), cacheOneAa)"
  "put cacheOneAa ''b'' (VNum 2) = (Inr (), cacheOneB)"
  "getContents cacheOneB = Some (Inr [(VStr ''b'', VNum 2)], cacheOneB)"
  "cache cacheOneB ''a'' = None"
proof -
  have room: "size' (newCache 1) \<noteq> capacity (newCache 1)" by simp
  from put_new_room [OF newCache_inv plain_key_new(1) room, where v = "VNum 1"]
  obtain s0 where p0: "put (newCache 1) ''a'' (VNum 1) = (Inr (), s0)"
    and inv0: "cacheInv s0 [2]" and e0: "entries s0 [2] = [(VStr ''a'', VNum 1)]"
    and f0: "cache s0 = (\<lambda>k. None)(''a'' := Some 2)" "size' s0 = 1" "capacity s0 = 1"
      "protoValue s0 = None"
    by (auto simp: entries_def numeral_2_eq_2)
  from p0 have s0: "s0 = cacheOneA" by (simp add: cacheOneA_def)
  have a: "cache s0 ''a'' = Some 2" by (simp add: f0)
  have v: "value (heap s0 2) = VNum 1"
    using e0 cacheInv_node(3) [OF inv0, of 2] by (simp add: entries_def)
  have k: "key (heap s0 2) = VStr ''a''" using e0 by (simp add: entries_def)
  from get_hit [OF inv0 a] obtain s1 where
    g: "get s0 ''a'' = (Inr (VNum 1), s1)" and l: "relinked s0 s1"
    and inv1: "cacheInv s1 [2]" by (auto simp: v)
  from g have s1: "s1 = cacheOneAa" by (simp add: cacheOneAa_def s0)
  from l have eq: "cache s1 = cache s0" "protoValue s1 = protoValue s0"
    "size' s1 = size' s0" "capacity s1 = capacity s0" "key (heap s1 2) = key (heap s0 2)"
    by (simp_all add: relinked_def)
  have nh: "\<not> hasProperty s1 ''b''"
    by (simp add: hasProperty_def builtinNames_def eq f0)
  have full: "size' s1 = capacity s1" by (simp add: eq f0)
  have ne: "[2] \<noteq> ([]::addr list)" by simp
  from put_new_full [OF inv1 nh full ne, of "VNum 2"] obtain s2 where
    p: "put s1 ''b'' (VNum 2) = (Inr (), s2)" and inv2: "cacheInv s2 [fresh s1]"
    and e2: "entries s2 [fresh s1] = [(VStr ''b'', VNum 2)]"
    and c2: "cache s2 = (cache s1)(nameOf (heap s1 2) := None, ''b'' := Some (fresh s1))"
    by (auto simp: entries_def)
  from p have s2: "s2 = cacheOneB" by (simp add: cacheOneB_def s1)
  from p0 show "put (newCache 1) ''a'' (VNum 1) = (Inr (), cacheOneA)" by (simp only: s0)
  from g show "get cacheOneA ''a'' = (Inr (VNum 1), cacheOneAa)" by (simp only: s0 s1)
  from p show "put cacheOneAa ''b'' (VNum 2) = (Inr (), cacheOneB)" by (simp only: s1 s2)
  from getContents_inv [OF inv2]
  have "getContents s2 = Some (Inr [(VStr ''b'', VNum 2)], s2)" by (simp only: e2)
  then show "getContents cacheOneB = Some (Inr [(VStr ''b'', VNum 2)], cacheOneB)"
    by (simp only: s2)
  from c2 show "cache cacheOneB ''a'' = None" by (simp add: s2 [symmetric] eq k)
qed

lemma run_example:
  "run (newCache 2) [Put ''a'' (VNum 1), Put ''b'' (VNum 2), Get ''a'', Put ''c'' (VNum 3)] =
     Some cacheCA"
proof -
  have 1: "run (newCache 2) [Put ''a'' (VNum 1)] = Some cacheA"
    by (rule run_put [OF cacheA_facts(1)])
  have 2: "run cacheA [Put ''b'' (VNum 2)] = Some cacheAB"
    by (rule run_put [OF cacheAB_facts(1)])
  have 3: "run cacheAB [Get ''a''] = Some cacheABa"
    by (rule run_get [OF cacheCA_facts(1)])
  have 4: "run cacheABa [Put ''c'' (VNum 3)] = Some cacheCA"
    by (rule run_put [OF cacheCA_facts(2)])
  have "run (newCache 2)
          ([Put ''a'' (VNum 1)] @ [Put ''b'' (VNum 2)] @ [Get ''a''] @ [Put ''c'' (VNum 3)]) =
        Some cacheCA"
    by (simp only: run_append 1 2 3 4 option.case)
  then show ?thesis by simp
qed

lemma run_example_one:
  "run (newCache 1) [Put ''a'' (VNum 1), Get ''a'', Put ''b'' (VNum 2)] = Some cacheOneB"
proof -
  have 1: "run (newCache 1) [Put ''a'' (VNum 1)] = Some cacheOneA"
    by (rule run_put [OF cacheOne_facts(1)])
  have 2: "run cacheOneA [Get ''a''] = Some cacheOneAa"
    by (rule run_get [OF cacheOne_facts(2)])
  have 3: "run cacheOneAa [Put ''b'' (VNum 2)] = Some cacheOneB"
    by (rule run_put [OF cacheOne_facts(3)])
  have "run (newCache 1) ([Put ''a'' (VNum 1)] @ [Get ''a''] @ [Put ''b'' (VNum 2)]) =
        Some cacheOneB"
    by (simp only: run_append 1 2 3 option.case)
  then show ?thesis by simp
qed

section \<open>The claims of the specification\<close>

text \<open>
  Claim C5 (every string key, also the names of properties of the map's prototype: \<open>has\<close> of a
  never-stored key is false, \<open>get\<close> returns not-found without error, and after \<open>put\<close> the key
  behaves as any other). On a new cache of capacity 100 none of the three names is stored,
  yet \<open>has\<close> answers true for each, \<open>get\<close> throws a \<open>TypeError\<close>, and \<open>put\<close> throws a
  \<open>TypeError\<close> and stores nothing: \<open>key in this.cache\<close> also finds what the object literal
  inherits from \<open>Object.prototype\<close>.
\<close>

theorem C5_inherited_names_fail:
  "cache (newCache 100) ''toString'' = None \<and>
   cache (newCache 100) ''hasOwnProperty'' = None \<and>
   cache (newCache 100) ''__proto__'' = None \<and>
   fst (has (newCache 100) ''toString'') = Inr True \<and>
   fst (has (newCache 100) ''hasOwnProperty'') = Inr True \<and>
   fst (has (newCache 100) ''__proto__'') = Inr True \<and>
   fst (get (newCache 100) ''toString'') = Inl TypeError \<and>
   fst (get (newCache 100) ''hasOwnProperty'') = Inl TypeError \<and>
   fst (get (newCache 100) ''__proto__'') = Inl TypeError \<and>
   fst (put (newCache 100) ''toString'' (VNum 1)) = Inl TypeError \<and>
   cache (snd (put (newCache 100) ''toString'' (VNum 1))) ''toString'' = None"
proof -
  have h: "hasProperty (newCache 100) ''toString''" "hasProperty (newCache 100) ''hasOwnProperty''"
    "hasProperty (newCache 100) ''__proto__''"
    by (simp_all add: hasProperty_def builtinNames_def)
  have c: "cache (newCache 100) ''toString'' = None"
    "cache (newCache 100) ''hasOwnProperty'' = None" "cache (newCache 100) ''__proto__'' = None"
    by simp_all
  have o: "objectOf (getProperty (newCache 100) ''toString'') = None"
    "objectOf (getProperty (newCache 100) ''hasOwnProperty'') = None"
    "objectOf (getProperty (newCache 100) ''__proto__'') = None"
    by (simp_all add: getProperty_def builtinNames_def)
  show ?thesis
    by (simp add: has_def h get_inherited [OF h(1) o(1)] get_inherited [OF h(2) o(2)]
        get_inherited [OF h(3) o(3)] put_inherited [OF h(1) o(1)])
qed




text \<open>
  Claim C8 (\<open>delete\<close> on an absent key returns false and leaves the state unchanged; on a
  present key it returns true, removes the entry from index and sequence, decrements size
  by one and leaves the other entries and their order unchanged). The key \<open>constructor\<close> is
  absent from a new cache, yet \<open>delete\<close> does not return false there: it throws a
  \<open>TypeError\<close>. On the cache holding \<open>b\<close> and \<open>a\<close>, \<open>delete\<close> of the absent key \<open>c\<close>
  returns false and \<open>delete\<close> of the present key \<open>a\<close> returns true and leaves \<open>b\<close> alone
  (lemmas \<open>delete_absent\<close> and \<open>delete_present\<close> give this for every state).
\<close>

theorem C8_delete_inherited_name_throws:
  "cache (newCache 100) ''constructor'' = None \<and>
   delete (newCache 100) ''constructor'' = (Inl TypeError, newCache 100) \<and>
   cache cacheAB ''c'' = None \<and> delete cacheAB ''c'' = (Inr False, cacheAB) \<and>
   cache cacheAB ''a'' = Some 2 \<and> fst (delete cacheAB ''a'') = Inr True \<and>
   size' (snd (delete cacheAB ''a'')) = 1 \<and>
   cache (snd (delete cacheAB ''a'')) ''a'' = None \<and>
   getContents (snd (delete cacheAB ''a'')) =
     Some (Inr [(VStr ''b'', VNum 2)], snd (delete cacheAB ''a''))"
proof -
  have h: "hasProperty (newCache 100) ''constructor''"
    by (simp add: hasProperty_def builtinNames_def)
  have c: "cache (newCache 100) ''constructor'' = None" by simp
  have o: "objectOf (getProperty (newCache 100) ''constructor'') = None"
    by (simp add: getProperty_def builtinNames_def)
  have nc: "\<not> hasProperty cacheAB ''c''"
    by (simp add: hasProperty_def builtinNames_def cacheAB_facts)
  have a: "cache cacheAB ''a'' = Some 2" by (simp add: cacheAB_facts)
  from delete_present [OF cacheAB_facts(2) a] obtain s1 where
    d: "delete cacheAB ''a'' =
          (Inr True, s1\<lparr>cache := (cache cacheAB)(''a'' := None), size' := size' cacheAB - 1\<rparr>)"
    and l: "relinked cacheAB s1"
    and i: "cacheInv (s1\<lparr>cache := (cache cacheAB)(''a'' := None),
                         size' := size' cacheAB - 1\<rparr>) [3]"
    by auto
  let ?s2 = "s1\<lparr>cache := (cache cacheAB)(''a'' := None), size' := size' cacheAB - 1\<rparr>"
  have "entries ?s2 [3] = entries cacheAB [3]"
    using l by (simp add: entries_def relinked_def readValue_def)
  also have "\<dots> = [(VStr ''b'', VNum 2)]" using cacheAB_facts(3) by (simp add: entries_def)
  finally have "getContents ?s2 = Some (Inr [(VStr ''b'', VNum 2)], ?s2)"
    using getContents_inv [OF i] by simp
  then show ?thesis
    using delete_inherited [OF h o] delete_absent [OF nc] a d
    by (simp add: cacheAB_facts)
qed

text \<open>
  Claim C1 (for capacity at least 1 and every sequence of calls, size equals the number of
  indexed keys and of live nodes and never exceeds capacity; once size has reached capacity,
  each further \<open>put\<close> of a new key evicts exactly the LRU entry before inserting). On the
  full cache of capacity 2 that holds \<open>b\<close> and \<open>a\<close>, the key \<open>constructor\<close> is new, yet
  \<open>put\<close> throws a \<open>TypeError\<close>, evicts nothing and inserts nothing. (For a new key that
  \<open>has\<close> reports absent, \<open>put\<close> on a full cache evicts exactly the LRU entry: lemma
  \<open>put_new_full\<close>.)
\<close>

theorem C1_put_inherited_name_on_full_cache:
  "size' cacheAB = 2 \<and> capacity cacheAB = 2 \<and>
   cache cacheAB ''constructor'' = None \<and>
   put cacheAB ''constructor'' (VNum 3) = (Inl TypeError, cacheAB) \<and>
   getContents cacheAB = Some (Inr [(VStr ''b'', VNum 2), (VStr ''a'', VNum 1)], cacheAB)"
proof -
  have h: "hasProperty cacheAB ''constructor''"
    by (simp add: hasProperty_def builtinNames_def)
  have c: "cache cacheAB ''constructor'' = None" by (simp add: cacheAB_facts)
  have o: "objectOf (getProperty cacheAB ''constructor'') = None"
    by (simp add: getProperty_def builtinNames_def c)
  show ?thesis
    using put_inherited [OF h o, of "VNum 3"] getContents_inv [OF cacheAB_facts(2)]
    by (simp add: cacheAB_facts)
qed

lemma clear_fields [simp]:
  "cache (snd (clear s)) = (\<lambda>k. None)" "size' (snd (clear s)) = 0"
  "capacity (snd (clear s)) = capacity s" "protoValue (snd (clear s)) = protoValue s"
  "head (snd (clear s)) = head s" "tail (snd (clear s)) = tail s"
  "fresh (snd (clear s)) = fresh s" "fst (clear s) = Inr ()"
  by (simp_all add: clear_def Let_def)

lemma clear_links:
  "head s \<noteq> tail s \<Longrightarrow> next (heap (snd (clear s)) (head s)) = Some (tail s)"
  "prev (heap (snd (clear s)) (tail s)) = Some (head s)"
  by (simp_all add: clear_def Let_def)

lemma cacheValue_facts:
  "cacheInv cacheValue [2]" "cache cacheValue = (\<lambda>k. None)(''value'' := Some 2)"
  "protoValue cacheValue = None" "size' cacheValue = 1"
proof -
  have room: "size' (newCache 2) \<noteq> capacity (newCache 2)" by simp
  have nk: "\<not> hasProperty (newCache 2) ''value''"
    by (simp add: hasProperty_def builtinNames_def)
  from put_new_room [OF newCache_inv nk room, where v = "VNum 1"]
  obtain s1 where p: "put (newCache 2) ''value'' (VNum 1) = (Inr (), s1)"
    and f: "cacheInv s1 [2]" "cache s1 = (\<lambda>k. None)(''value'' := Some 2)"
      "protoValue s1 = None" "size' s1 = 1"
    by (auto simp: numeral_2_eq_2)
  from p have s1: "s1 = cacheValue" by (simp add: cacheValue_def)
  from f show "cacheInv cacheValue [2]" "cache cacheValue = (\<lambda>k. None)(''value'' := Some 2)"
    "protoValue cacheValue = None" "size' cacheValue = 1" unfolding s1 by simp_all
qed

lemma cachePolluted_eq: "cachePolluted = cacheValue\<lparr>protoValue := Some (VNum 2)\<rparr>"
  "fst (put cacheValue ''__proto__'' (VNum 2)) = Inl TypeError"
proof -
  have c: "cache cacheValue ''__proto__'' = None" by (simp add: cacheValue_facts)
  have h: "hasProperty cacheValue ''__proto__''" by (simp add: hasProperty_def)
  have o: "objectOf (getProperty cacheValue ''__proto__'') = None"
    by (simp add: getProperty_def c)
  from put_inherited [OF h o, of "VNum 2"]
  show "cachePolluted = cacheValue\<lparr>protoValue := Some (VNum 2)\<rparr>"
    "fst (put cacheValue ''__proto__'' (VNum 2)) = Inl TypeError"
    by (simp_all add: cachePolluted_def)
qed

text \<open>
  Claim C10 (after \<open>clear\<close> on any state the index is empty, \<open>head.next\<close> is \<open>tail\<close> and
  \<open>tail.prev\<close> is \<open>head\<close>, size is 0, \<open>getContents\<close> is empty and \<open>has(k)\<close> is false for
  every previously present key \<open>k\<close>). Take the cache that holds the key \<open>value\<close> and on
  which \<open>put(__proto__, 2)\<close> was called: that call threw, after writing the property
  \<open>value\<close> onto \<open>Object.prototype\<close>. After \<open>clear\<close> the index is empty, the sentinels are
  linked to each other, size is 0 and \<open>getContents\<close> is empty, but \<open>has(value)\<close> is true.
\<close>

theorem C10_has_after_clear_inherited:
  "cache cacheValue ''value'' = Some 2 \<and>
   fst (put cacheValue ''__proto__'' (VNum 2)) = Inl TypeError \<and>
   cache cachePolluted ''value'' = Some 2 \<and>
   cache (snd (clear cachePolluted)) = (\<lambda>k. None) \<and>
   size' (snd (clear cachePolluted)) = 0 \<and>
   getContents (snd (clear cachePolluted)) = Some (Inr [], snd (clear cachePolluted)) \<and>
   fst (has (snd (clear cachePolluted)) ''value'') = Inr True"
proof -
  have i: "cacheInv cachePolluted [2]"
    using cacheValue_facts(1) unfolding cachePolluted_eq(1) by (simp add: cacheInv_def)
  from getContents_inv [OF clear_inv [OF i]]
  have "getContents (snd (clear cachePolluted)) = Some (Inr [], snd (clear cachePolluted))"
    by (simp add: entries_def)
  moreover have "fst (has (snd (clear cachePolluted)) ''value'') = Inr True"
    by (simp add: has_def hasProperty_def cachePolluted_eq(1))
  ultimately show ?thesis
    by (simp add: cachePolluted_eq cacheValue_facts)
qed

lemma newCache_heap [simp]:
  "heap (newCache cap) 0 =
     \<lparr>key = VStr ''head'', value = VNull, prev = None, next = Some (Suc 0), ownValue = True\<rparr>"
  "heap (newCache cap) (Suc 0) =
     \<lparr>key = VStr ''tail'', value = VNull, prev = Some 0, next = None, ownValue = True\<rparr>"
  unfolding newCache_eq by (simp_all add: setNext_def setPrev_def)

lemma cacheZeroA_eval:
  "fst (put (newCache 0) ''a'' (VNum 1)) = Inr ()"
  "size' cacheZeroA = 0" "capacity cacheZeroA = 0" "head cacheZeroA = 0" "tail cacheZeroA = Suc 0"
  "next (heap cacheZeroA 0) = Some (Suc (Suc 0))"
  "next (heap cacheZeroA (Suc (Suc 0))) = Some (Suc 0)"
  "key (heap cacheZeroA (Suc (Suc 0))) = VStr ''a''"
  "readValue cacheZeroA (Suc (Suc 0)) = VNum 1"
  "cache cacheZeroA ''a'' = Some (Suc (Suc 0))"
  by (simp_all add: cacheZeroA_def put_def plain_key_new evictIfFull_def removeLRU_def
      propertyName_def split_beta addToFront_def Let_def new_Node_heap readValue_def)

lemma cacheZeroA_contents:
  "getContents cacheZeroA = Some (Inr [(VStr ''a'', VNum 1)], cacheZeroA)"
  using walk_stop [of cacheZeroA "[(VStr ''a'', VNum 1)]"]
  by (simp add: getContents_def cacheZeroA_eval walk_step)

text \<open>
  Claim C6 (constructing a cache with a capacity of 0 or less fails at construction, rather
  than yielding an instance whose operations silently misbehave). The constructor returns
  an instance for capacity 0 and for capacity -5; on the instance of capacity 0, \<open>put(a, 1)\<close>
  returns normally and leaves size at 0 with one entry in the sequence.
\<close>

theorem C6_counterexample:
  "LRUCache 0 = Inr (newCache 0) \<and> LRUCache (- 5) = Inr (newCache (- 5)) \<and>
   fst (put (newCache 0) ''a'' (VNum 1)) = Inr () \<and> size' cacheZeroA = 0 \<and>
   getContents cacheZeroA = Some (Inr [(VStr ''a'', VNum 1)], cacheZeroA)"
  by (simp add: LRUCache_def cacheZeroA_eval cacheZeroA_contents)

text \<open>
  Claim C6 as amended: constructing a cache never fails. The constructor checks nothing and,
  for every capacity (also 0 and negative ones), returns an empty instance that stores the
  given capacity: size 0, empty index, \<open>head.next\<close> is \<open>tail\<close>, \<open>tail.prev\<close> is \<open>head\<close>,
  and \<open>getContents\<close> is empty.
\<close>

theorem C6_constructor_accepts_any_capacity:
  "LRUCache cap = Inr (newCache cap) \<and> capacity (newCache cap) = cap \<and>
   size' (newCache cap) = 0 \<and> cache (newCache cap) = (\<lambda>k. None) \<and>
   next (heap (newCache cap) (head (newCache cap))) = Some (tail (newCache cap)) \<and>
   prev (heap (newCache cap) (tail (newCache cap))) = Some (head (newCache cap)) \<and>
   getContents (newCache cap) = Some (Inr [], newCache cap)"
  using getContents_inv [OF newCache_inv, of cap]
  by (simp add: LRUCache_def entries_def)





text \<open>
  Claim C7 (\<open>get\<close> on a present key relinks that entry right after \<open>head\<close> and keeps the
  relative order of the others; \<open>has\<close> for every key and \<open>get\<close> for every absent key
  leave index, recency order and size unchanged). On the cache of capacity 2 that holds
  \<open>a\<close>, the call \<open>put(__proto__, p)\<close> with the object \<open>p = {prev: {}, next: {}}\<close> throws
  a \<open>TypeError\<close> after writing \<open>p\<close> to \<open>Object.prototype.value\<close>. The key \<open>value\<close> was
  never stored and the sequence holds \<open>a\<close> alone, yet \<open>get(value)\<close> returns \<open>p\<close> and
  changes the state: \<open>p\<close> is linked right after \<open>head\<close>, so the sequence has two entries
  while size is still 1. (For a key of the index, \<open>get\<close> promotes its node and keeps the
  others in order: lemma \<open>get_hit\<close>; \<open>has\<close> returns the state it was given, by its
  definition; \<open>get\<close> on a key for which \<open>has\<close> is false changes nothing: lemma
  \<open>get_absent\<close>.)
\<close>

theorem C7_get_never_stored_key_relinks:
  "put callerObjects ''__proto__'' (VObj 5) = (Inl TypeError, cacheProto) \<and>
   cache cacheProto ''value'' = None \<and> size' cacheProto = 1 \<and>
   getContents cacheProto = Some (Inr [(VStr ''a'', VNum 1)], cacheProto) \<and>
   get cacheProto ''value'' = (Inr (VObj 5), cacheLinked) \<and>
   cacheLinked \<noteq> cacheProto \<and>
   next (heap cacheProto (head cacheProto)) = Some 2 \<and>
   next (heap cacheLinked (head cacheLinked)) = Some 5 \<and>
   size' cacheLinked = 1 \<and>
   getContents cacheLinked =
     Some (Inr [(VUndefined, VObj 5), (VStr ''a'', VNum 1)], cacheLinked)"
proof -
  have w: "walk cacheProto (Some 2) [] = Some (Inr [(VStr ''a'', VNum 1)])"
    using walk_stop [of cacheProto "[(VStr ''a'', VNum 1)]"]
    by (simp add: walk_step cacheProto_fields)
  have g: "getContents cacheProto = Some (Inr [(VStr ''a'', VNum 1)], cacheProto)"
    by (simp add: getContents_def cacheProto_fields w)
  have n: "next (heap cacheLinked (head cacheLinked)) = Some 5" "size' cacheLinked = 1"
    by (simp_all add: cacheLinked_eq(2) cacheProto_fields)
  have "next (heap cacheLinked 0) \<noteq> next (heap cacheProto 0)"
    using n(1) by (simp add: cacheLinked_eq(2) cacheProto_fields)
  then have d: "cacheLinked \<noteq> cacheProto" by auto
  show ?thesis
    using cacheProto_eq(1) g cacheLinked_eq(1) d n cacheLinked_contents
    by (simp add: cacheProto_fields)
qed

text \<open>
  Claim C3 (after every finite sequence of operations \<open>getContents\<close> returns exactly size
  entries \<open>{key, value}\<close>, ordered from most to least recently touched by the order of
  the \<open>get\<close> and \<open>put\<close> touches, and the traversal mutates nothing and promotes nothing).
  On the cache of capacity 2 that holds \<open>a\<close>, after the call \<open>put(__proto__, p)\<close> with
  \<open>p = {prev: {}, next: {}}\<close>, whose exception the caller caught, \<open>delete(value)\<close> of the
  never-stored key \<open>value\<close> returns true and decrements size to 0, while the sequence
  still holds \<open>a\<close>: \<open>getContents\<close> returns one entry when size is 0. (In every state
  that satisfies the invariant with live nodes \<open>as\<close>, \<open>getContents\<close> returns the entries
  of \<open>as\<close> in their order, as many as size says, and the state it was given: lemmas
  \<open>getContents_inv\<close> and \<open>cacheInv_size\<close>.)
\<close>

theorem C3_getContents_lists_more_than_size:
  "put callerObjects ''__proto__'' (VObj 5) = (Inl TypeError, cacheProto) \<and>
   cache cacheProto ''value'' = None \<and>
   delete cacheProto ''value'' = (Inr True, cacheUnlinked) \<and>
   size' cacheUnlinked = 0 \<and>
   getContents cacheUnlinked = Some (Inr [(VStr ''a'', VNum 1)], cacheUnlinked)"
proof -
  have f: "head cacheUnlinked = 0" "tail cacheUnlinked = Suc 0" "size' cacheUnlinked = 0"
    "next (heap cacheUnlinked 0) = Some 2" "next (heap cacheUnlinked 2) = Some (Suc 0)"
    "key (heap cacheUnlinked 2) = VStr ''a''" "readValue cacheUnlinked 2 = VNum 1"
    by (simp_all add: cacheUnlinked_eq(2) cacheProto_fields)
  have "walk cacheUnlinked (Some 2) [] = Some (Inr [(VStr ''a'', VNum 1)])"
    using walk_stop [of cacheUnlinked "[(VStr ''a'', VNum 1)]"]
    by (simp add: walk_step f)
  then have "getContents cacheUnlinked = Some (Inr [(VStr ''a'', VNum 1)], cacheUnlinked)"
    by (simp add: getContents_def f)
  then show ?thesis
    using cacheProto_eq(1) cacheUnlinked_eq(1) by (simp add: cacheProto_fields f)
qed

text \<open>
  Claim C2 (for every capacity N of at least 1, putting N+1 distinct new keys with no read in
  between evicts exactly the first-inserted key; with a \<open>get\<close> on the oldest key before the
  last \<open>put\<close>, that key is spared and the next-oldest is evicted; with capacity 2,
  \<open>put(a,1)\<close>, \<open>put(b,2)\<close>, \<open>get(a)\<close>, \<open>put(c,3)\<close> gives \<open>getContents()\<close> =
  \<open>[{a,1},{c,3}]\<close>). The calls of the example leave the cache with the contents
  \<open>[{c,3},{a,1}]\<close>, most recently used first, not \<open>[{a,1},{c,3}]\<close>. With capacity 1 the
  oldest key is the only key: after \<open>put(a,1)\<close>, \<open>get(a)\<close>, \<open>put(b,2)\<close> the key \<open>a\<close> is
  evicted, not spared.
\<close>

theorem C2_counterexample:
  "run (newCache 2) [Put ''a'' (VNum 1), Put ''b'' (VNum 2), Get ''a'', Put ''c'' (VNum 3)] =
     Some cacheCA \<and>
   getContents cacheCA = Some (Inr [(VStr ''c'', VNum 3), (VStr ''a'', VNum 1)], cacheCA) \<and>
   getContents cacheCA \<noteq> Some (Inr [(VStr ''a'', VNum 1), (VStr ''c'', VNum 3)], cacheCA) \<and>
   run (newCache 1) [Put ''a'' (VNum 1), Get ''a'', Put ''b'' (VNum 2)] = Some cacheOneB \<and>
   getContents cacheOneB = Some (Inr [(VStr ''b'', VNum 2)], cacheOneB) \<and>
   cache cacheOneB ''a'' = None"
  by (simp only: run_example run_example_one cacheCA_facts(3) cacheOne_facts(4,5)) simp

text \<open>
  Claim C2 as amended. Take distinct keys \<open>k1\<close>, the keys of \<open>rest\<close>, and \<open>k\<close>, none of them
  a name inherited from \<open>Object.prototype\<close>, and a new cache whose capacity N is the number
  of the keys \<open>k1\<close> and \<open>rest\<close>. Putting \<open>k1\<close>, then \<open>rest\<close>, then \<open>k\<close> leaves the index
  with the keys of \<open>rest\<close> and \<open>k\<close>: exactly \<open>k1\<close> was evicted, and \<open>getContents\<close> lists
  \<open>k\<close> first and then \<open>rest\<close> from the newest to the oldest. When N is at least 2, so
  that \<open>rest\<close> starts with a key \<open>k2\<close>, a \<open>get(k1)\<close> before the last \<open>put\<close> spares \<open>k1\<close>
  and evicts \<open>k2\<close>: \<open>getContents\<close> lists \<open>k\<close>, then \<open>k1\<close>, then the remaining keys from
  the newest to the oldest.
\<close>

theorem C2_eviction_of_oldest_key:
  assumes "distinct (k # k1 # map fst rest)"
    and "\<forall>x\<in>set (k # k1 # map fst rest). \<not> inheritedName x"
  shows "(\<exists>s. run (newCache (int (length rest) + 1)) (puts ((k1, v1) # rest) @ [Put k v]) =
                Some s \<and>
              getContents s = Some (Inr (entry (k, v) # rev (map entry rest)), s) \<and>
              dom (cache s) = set (k # map fst rest)) \<and>
         (\<forall>k2 v2 rest'. rest = (k2, v2) # rest' \<longrightarrow>
            (\<exists>s. run (newCache (int (length rest) + 1))
                   (puts ((k1, v1) # rest) @ [Get k1, Put k v]) = Some s \<and>
                 getContents s =
                   Some (Inr (entry (k, v) # entry (k1, v1) # rev (map entry rest')), s) \<and>
                 dom (cache s) = set (k # k1 # map fst rest')))"
proof (intro conjI allI impI)
  show "\<exists>s. run (newCache (int (length rest) + 1)) (puts ((k1, v1) # rest) @ [Put k v]) =
              Some s \<and>
            getContents s = Some (Inr (entry (k, v) # rev (map entry rest)), s) \<and>
            dom (cache s) = set (k # map fst rest)"
    by (rule fill_put [OF assms])
next
  fix k2 v2 rest'
  assume r: "rest = (k2, v2) # rest'"
  from assms have d: "distinct (k # k1 # k2 # map fst rest')"
    and ni: "\<forall>x\<in>set (k # k1 # k2 # map fst rest'). \<not> inheritedName x"
    by (simp_all add: r)
  have n: "int (length ((k2, v2) # rest')) + 1 = int (length rest') + 2" by simp
  show "\<exists>s. run (newCache (int (length rest) + 1))
              (puts ((k1, v1) # rest) @ [Get k1, Put k v]) = Some s \<and>
            getContents s =
              Some (Inr (entry (k, v) # entry (k1, v1) # rev (map entry rest')), s) \<and>
            dom (cache s) = set (k # k1 # map fst rest')"
    unfolding r n by (rule fill_get_put [OF d ni])
qed

theorem C2_witness:
  "distinct [''c'', ''a'', ''b''] \<and> \<not> inheritedName ''c'' \<and> \<not> inheritedName ''a'' \<and>
   \<not> inheritedName ''b'' \<and>
   run (newCache 2) [Put ''a'' (VNum 1), Put ''b'' (VNum 2), Get ''a'', Put ''c'' (VNum 3)] =
     Some cacheCA \<and>
   getContents cacheCA = Some (Inr [(VStr ''c'', VNum 3), (VStr ''a'', VNum 1)], cacheCA) \<and>
   dom (cache cacheCA) = {''c'', ''a''}"
proof -
  have d: "distinct (''c'' # ''a'' # map fst [(''b'', VNum 2)])" by simp
  have ni: "\<forall>x\<in>set (''c'' # ''a'' # map fst [(''b'', VNum 2)]). \<not> inheritedName x"
    by (simp add: inheritedName_def builtinNames_def)
  from C2_eviction_of_oldest_key [OF d ni, of "VNum 1" "VNum 3"]
  obtain s where
    r: "run (newCache 2) [Put ''a'' (VNum 1), Put ''b'' (VNum 2), Get ''a'', Put ''c'' (VNum 3)] =
          Some s"
    and g: "getContents s = Some (Inr [(VStr ''c'', VNum 3), (VStr ''a'', VNum 1)], s)"
    and c: "dom (cache s) = {''c'', ''a''}"
    by (auto simp: puts_def entry_def)
  from r have s: "s = cacheCA" by (simp only: run_example option.inject)
  show ?thesis
    using ni r g c unfolding s by simp
qed

end
